theory Spec2Isabelle
  imports Complex_Main "HOL-Library.AList"
begin

section \<open>Data model of priorityqueue.py\<close>

text \<open>
  The enums of the module. \<open>TaskPriority\<close> carries the integer values 1..5, read by
  \<open>priority_value\<close>.
\<close>

datatype TaskStatus = PENDING | IN_PROGRESS | BLOCKED | COMPLETED | CANCELLED | FAILED

datatype TaskPriority = CRITICAL | HIGH | MEDIUM | LOW | BACKLOG

datatype TaskCategory = DEVELOPMENT | DOCUMENTATION | TESTING | BUGFIX | FEATURE
  | RESEARCH | COORDINATION | MAINTENANCE | URGENT | OTHER

fun priority_value :: "TaskPriority \<Rightarrow> int" where
  "priority_value CRITICAL = 1"
| "priority_value HIGH = 2"
| "priority_value MEDIUM = 3"
| "priority_value LOW = 4"
| "priority_value BACKLOG = 5"

text \<open>
  Values stored in the untyped dictionaries of the module (task metadata, the details of a
  history entry): the strings, integers and \<open>None\<close> the code puts there.
\<close>

datatype jval = JStr string | JInt int | JNull

text \<open>
  The dataclass \<open>Task\<close>. Timestamps are kept as the ISO strings the code stores;
  \<open>Optional\<close> fields are options. The fields \<open>id\<close> and \<open>notes\<close> are named \<open>ident\<close> and \<open>notes_str\<close>.

  The field \<open>dependencies\<close> holds a Python list, which is an object: \<open>add\<close> stores
  the very list its caller passes, so two tasks may hold the same object, and
  \<open>add_dependency\<close> and \<open>remove_dependency\<close> change the object in place. In the model
  \<open>dependencies\<close> is the content of the list and \<open>dependencies_obj\<close> the identity of the
  object (its address). Tasks that hold the same object see the same content: an
  operation that changes the object writes the new content to every task of the store that
  holds it (\<open>set_list\<close> below). No operation changes the lists of \<open>tags\<close> in place.
\<close>

record Task =
  ident :: string
  title :: string
  description :: string
  status :: TaskStatus
  priority :: TaskPriority
  category :: TaskCategory
  assigned_agent :: string
  created_by :: string
  created_at :: string
  deadline :: "string option"
  dependencies :: "string list"
  dependencies_obj :: nat
  tags :: "string list"
  estimated_duration :: int
  actual_duration :: "int option"
  started_at :: "string option"
  completed_at :: "string option"
  notes_str :: string
  metadata :: "(string \<times> jval) list"

text \<open>The dataclass \<open>AgentStatus\<close>.\<close>

record AgentStatus =
  name :: string
  available :: bool
  current_task :: "string option"
  last_active :: string
  completed_today :: int
  capabilities :: "string list"
  max_concurrent :: int

subsection \<open>Time\<close>

text \<open>
  A \<open>datetime\<close> value is a count of microseconds, either naive (no time zone; what
  \<open>datetime.now()\<close> returns) or aware (the string carried a UTC offset). The library
  function \<open>datetime.fromisoformat\<close> is a parameter of the model, of type \<open>iso_parser\<close>:
  \<open>None\<close> stands for the \<open>ValueError\<close> it raises on a string that is not an ISO
  timestamp. The clock is a parameter \<open>now\<close> (microseconds, naive), read once per
  operation.
\<close>

datatype datetime = Naive int | Aware int

type_synonym iso_parser = "string \<Rightarrow> datetime option"

text \<open>
  \<open>(a - b).total_seconds()\<close> in microseconds. Python raises \<open>TypeError\<close> when one
  operand is naive and the other aware: that is the result \<open>None\<close>.
\<close>

fun datetime_diff :: "datetime \<Rightarrow> datetime \<Rightarrow> int option" where
  "datetime_diff (Naive a) (Naive b) = Some (a - b)"
| "datetime_diff (Aware a) (Aware b) = Some (a - b)"
| "datetime_diff (Naive a) (Aware b) = None"
| "datetime_diff (Aware a) (Naive b) = None"

text \<open>\<open>total_seconds() / 3600\<close>, in exact rational arithmetic.\<close>

definition hours_of_micros :: "int \<Rightarrow> rat" where
  "hours_of_micros us = of_int us / 3600000000"

subsection \<open>Floating point\<close>

text \<open>
  The score is a Python float, an IEEE binary64 number. A finite float is modelled by the
  rational number it denotes. \<open>fl x\<close> is the float nearest to \<open>x\<close>, ties to the even
  significand: \<open>binade\<close> scales \<open>\<bar>x\<bar>\<close> into the interval from 1 to 2 by powers of two,
  and the scaled value is rounded to 52 fractional bits. This is the value of a decimal
  literal (\<open>0.1\<close> in the source is \<open>fl (1 / 10)\<close>, which is not one tenth) and the
  rounding of every arithmetic operation, so \<open>score *= c\<close> is \<open>fmul score c\<close>.
  Subnormal numbers and overflow are out of the model: a score lies between 0.04 and 51.
\<close>

definition round_half_even :: "rat \<Rightarrow> int" where
  "round_half_even z =
     (let n = \<lfloor>z\<rfloor>; r = z - of_int n
      in if r < 1 / 2 then n else if 1 / 2 < r then n + 1 else if even n then n else n + 1)"

fun binade :: "nat \<Rightarrow> rat \<Rightarrow> rat \<Rightarrow> rat \<times> rat" where
  "binade 0 y s = (y, s)"
| "binade (Suc n) y s =
     (if y < 1 then binade n (2 * y) (s / 2)
      else if 2 \<le> y then binade n (y / 2) (2 * s)
      else (y, s))"

definition fl :: "rat \<Rightarrow> rat" where
  "fl x =
     (if x = 0 then 0
      else (case binade 1100 \<bar>x\<bar> 1 of
              (y, s) \<Rightarrow> sgn x * (of_int (round_half_even (y * 2 ^ 52)) / 2 ^ 52 * s)))"

definition fmul :: "rat \<Rightarrow> rat \<Rightarrow> rat" where
  "fmul x y = fl (x * y)"

section \<open>Task.calculate_score\<close>

text \<open>
  \<open>float(self.priority.value)\<close> is exact (the values are 1 to 5), as is the factor 10.
  Each \<open>try\<close> block is a \<open>case\<close> whose \<open>None\<close> branches are the
  \<open>except (ValueError, TypeError): pass\<close> of the source: the score is left as it was.
\<close>

definition deadline_urgency :: "iso_parser \<Rightarrow> int \<Rightarrow> Task \<Rightarrow> rat \<Rightarrow> rat" where
  "deadline_urgency parse now t score =
     (case deadline t of
        None \<Rightarrow> score
      | Some s \<Rightarrow>
          if s = [] then score
          else (case parse s of
                  None \<Rightarrow> score
                | Some deadline_dt \<Rightarrow>
                    (case datetime_diff deadline_dt (Naive now) of
                       None \<Rightarrow> score
                     | Some us \<Rightarrow>
                         (let hours_until_deadline = hours_of_micros us in
                          if hours_until_deadline < 0 then fmul score (fl (1 / 10))
                          else if hours_until_deadline < 1 then fmul score (fl (3 / 10))
                          else if hours_until_deadline < 4 then fmul score (fl (5 / 10))
                          else if hours_until_deadline < 24 then fmul score (fl (7 / 10))
                          else if hours_until_deadline < 72 then fmul score (fl (9 / 10))
                          else score))))"

definition age_factor :: "iso_parser \<Rightarrow> int \<Rightarrow> Task \<Rightarrow> rat \<Rightarrow> rat" where
  "age_factor parse now t score =
     (case parse (created_at t) of
        None \<Rightarrow> score
      | Some created \<Rightarrow>
          (case datetime_diff (Naive now) created of
             None \<Rightarrow> score
           | Some us \<Rightarrow>
               (let age_hours = hours_of_micros us;
                    score1 = (if age_hours > 24 then fmul score (fl (95 / 100)) else score);
                    score2 = (if age_hours > 72 then fmul score1 (fl (90 / 100)) else score1)
                in score2)))"

definition calculate_score :: "iso_parser \<Rightarrow> int \<Rightarrow> Task \<Rightarrow> rat" where
  "calculate_score parse now t =
     (let score0 = of_int (priority_value (priority t));
          score1 = deadline_urgency parse now t score0;
          score2 = age_factor parse now t score1;
          score3 = (if status t = BLOCKED then fmul score2 10 else score2)
      in score3)"

section \<open>The store: class PriorityQueue\<close>

text \<open>
  The instance state: the dictionaries \<open>_tasks\<close> and \<open>_agents\<close> and the list
  \<open>_history\<close>. A Python dictionary keeps insertion order, so each is an association
  list: \<open>map_of\<close> is \<open>get\<close>, \<open>AList.update\<close> is item assignment (in place for
  a known key, appended for a new one) and \<open>AList.delete\<close> is \<open>pop\<close>. Task and
  agent objects are mutated in place by the code; the model writes the changed record
  back under its key. Writing the JSON files (\<open>_save_data\<close>) and the lock are left out:
  the model is the in-memory state of one thread. \<open>now_iso\<close> is
  \<open>datetime.now().isoformat()\<close>, read once per operation.
\<close>

record HistoryEntry =
  h_timestamp :: string
  h_action :: string
  h_task_id :: string
  h_details :: "(string \<times> jval) list"

record PriorityQueue =
  tasks :: "(string \<times> Task) list"
  agents :: "(string \<times> AgentStatus) list"
  history :: "HistoryEntry list"

definition log_action ::
  "string \<Rightarrow> string \<Rightarrow> string \<Rightarrow> (string \<times> jval) list \<Rightarrow> PriorityQueue \<Rightarrow> PriorityQueue" where
  "log_action now_iso act task_id dets s =
     s\<lparr>history := history s @
          [\<lparr>h_timestamp = now_iso, h_action = act, h_task_id = task_id, h_details = dets\<rparr>]\<rparr>"

subsection \<open>Construction\<close>

text \<open>
  \<open>__init__\<close> with no persisted files: empty dictionaries, then \<open>_initialize_agents\<close>,
  which creates a record for every name of \<open>AGENTS\<close> but the wildcard.
\<close>

definition AGENTS :: "string list" where
  "AGENTS = [''FORGE'', ''ATLAS'', ''CLIO'', ''NEXUS'', ''BOLT'', ''PORTER'', ''ANY'']"

definition get_agent_capabilities :: "string \<Rightarrow> string list" where
  "get_agent_capabilities agent_name =
     (case map_of
        [(''FORGE'', [''COORDINATION'', ''DOCUMENTATION'', ''RESEARCH'', ''REVIEW'']),
         (''ATLAS'', [''DEVELOPMENT'', ''TESTING'', ''BUGFIX'', ''FEATURE'']),
         (''CLIO'', [''DEVELOPMENT'', ''MAINTENANCE'', ''DOCUMENTATION'']),
         (''NEXUS'', [''RESEARCH'', ''TESTING'', ''DOCUMENTATION'']),
         (''BOLT'', [''DEVELOPMENT'', ''BUGFIX'', ''FEATURE'']),
         (''PORTER'', [''DEVELOPMENT'', ''MOBILE'', ''TESTING''])] agent_name of
        None \<Rightarrow> [''OTHER'']
      | Some caps \<Rightarrow> caps)"

definition initialize_agents :: "string \<Rightarrow> PriorityQueue \<Rightarrow> PriorityQueue" where
  "initialize_agents now_iso s =
     fold (\<lambda>agent_name s1.
             if map_of (agents s1) agent_name = None \<and> agent_name \<noteq> ''ANY''
             then s1\<lparr>agents :=
                       AList.update agent_name
                         \<lparr> name = agent_name, available = True, current_task = None,
                           last_active = now_iso, completed_today = 0,
                           capabilities = get_agent_capabilities agent_name,
                           max_concurrent = 1 \<rparr>
                         (agents s1)\<rparr>
             else s1)
       AGENTS s"

definition new_queue :: "string \<Rightarrow> PriorityQueue" where
  "new_queue now_iso = initialize_agents now_iso \<lparr> tasks = [], agents = [], history = [] \<rparr>"

subsection \<open>Blocked status\<close>

text \<open>
  \<open>dep_complete\<close> is the generator expression
  \<open>(dep_task := self._tasks.get(dep_id)) and dep_task.status == TaskStatus.COMPLETED\<close>:
  false for an id that is not in the dictionary.
\<close>

definition dep_complete :: "(string \<times> Task) list \<Rightarrow> string \<Rightarrow> bool" where
  "dep_complete ts dep_id =
     (case map_of ts dep_id of None \<Rightarrow> False | Some dep_task \<Rightarrow> status dep_task = COMPLETED)"

definition all_deps_complete :: "(string \<times> Task) list \<Rightarrow> Task \<Rightarrow> bool" where
  "all_deps_complete ts task = list_all (dep_complete ts) (dependencies task)"

text \<open>The body of the loop of \<open>_update_blocked_status\<close>, for one task.\<close>

definition update_blocked_task :: "(string \<times> Task) list \<Rightarrow> Task \<Rightarrow> Task" where
  "update_blocked_task ts task =
     (if status task = COMPLETED \<or> status task = CANCELLED \<or> status task = FAILED
         \<or> status task = IN_PROGRESS
      then task
      else if dependencies task \<noteq> [] then
        (if \<not> all_deps_complete ts task then task\<lparr>status := BLOCKED\<rparr>
         else if all_deps_complete ts task \<and> status task = BLOCKED
         then task\<lparr>status := PENDING\<rparr>
         else task)
      else
        (if status task = BLOCKED then task\<lparr>status := PENDING\<rparr> else task))"

text \<open>
  One iteration of the loop over \<open>self._tasks.items()\<close>: the task is read from and
  written back to the current dictionary, so that a later iteration sees the statuses
  the earlier ones have set. The loop visits the keys in insertion order.
\<close>

definition update_blocked_step :: "string \<Rightarrow> (string \<times> Task) list \<Rightarrow> (string \<times> Task) list" where
  "update_blocked_step task_id ts =
     (case map_of ts task_id of
        None \<Rightarrow> ts
      | Some task \<Rightarrow> AList.update task_id (update_blocked_task ts task) ts)"

fun update_blocked_loop :: "string list \<Rightarrow> (string \<times> Task) list \<Rightarrow> (string \<times> Task) list" where
  "update_blocked_loop [] ts = ts"
| "update_blocked_loop (task_id # ks) ts = update_blocked_loop ks (update_blocked_step task_id ts)"

definition update_blocked_status :: "(string \<times> Task) list \<Rightarrow> (string \<times> Task) list" where
  "update_blocked_status ts = update_blocked_loop (map fst ts) ts"

subsection \<open>Task management\<close>

text \<open>
  The keyword arguments of \<open>add\<close> and of \<open>update\<close>, as records. The argument
  \<open>dependencies\<close> of \<open>add\<close> is a list object: \<open>Fresh xs\<close> is a list with content
  \<open>xs\<close> that no task of the store holds (a list the caller has just built), and
  \<open>ListOf k\<close> is the list that the task \<open>k\<close> of the store holds (the caller passes
  again the list it passed when it added \<open>k\<close>, or \<open>queue.get(k).dependencies\<close>).
\<close>

datatype deps_arg = Fresh "string list" | ListOf string

record AddArgs =
  a_title :: string
  a_description :: string
  a_priority :: TaskPriority
  a_category :: TaskCategory
  a_assigned_agent :: string
  a_created_by :: string
  a_deadline :: "string option"
  a_dependencies :: "deps_arg option"
  a_tags :: "string list option"
  a_estimated_duration :: int
  a_metadata :: "(string \<times> jval) list option"

record UpdateArgs =
  u_title :: "string option"
  u_description :: "string option"
  u_priority :: "TaskPriority option"
  u_category :: "TaskCategory option"
  u_assigned_agent :: "string option"
  u_deadline :: "string option"
  u_tags :: "string list option"
  u_estimated_duration :: "int option"
  u_notes :: "string option"

fun priority_name :: "TaskPriority \<Rightarrow> string" where
  "priority_name CRITICAL = ''CRITICAL''"
| "priority_name HIGH = ''HIGH''"
| "priority_name MEDIUM = ''MEDIUM''"
| "priority_name LOW = ''LOW''"
| "priority_name BACKLOG = ''BACKLOG''"

text \<open>
  \<open>x or []\<close> for an optional list argument.
\<close>

definition or_empty :: "'a list option \<Rightarrow> 'a list" where
  "or_empty xo = (case xo of None \<Rightarrow> [] | Some xs \<Rightarrow> xs)"

text \<open>
  List objects. \<open>fresh_list\<close> is the address of a newly created list: one that no task
  of the store holds. \<open>given_list\<close> is the object the caller of \<open>add\<close> passes, with
  its address and its content at the time of the call (\<open>None\<close> for the argument
  \<open>None\<close>; there is no list of a task that is not in the store, and the model reads
  that argument as \<open>None\<close> too). \<open>or_new_list\<close> is the expression
  \<open>dependencies or []\<close>: the object given when it is not empty, and a new empty list
  when the argument is \<open>None\<close> or an empty list. \<open>set_list obj xs\<close> is a change in
  place of the list at address \<open>obj\<close>, whose content becomes \<open>xs\<close> for every task that
  holds it.
\<close>

definition fresh_list :: "(string \<times> Task) list \<Rightarrow> nat" where
  "fresh_list ts = Suc (foldr max (map (\<lambda>(k, t). dependencies_obj t) ts) 0)"

definition given_list :: "(string \<times> Task) list \<Rightarrow> deps_arg option \<Rightarrow> (nat \<times> string list) option" where
  "given_list ts arg =
     (case arg of
        None \<Rightarrow> None
      | Some (Fresh xs) \<Rightarrow> Some (fresh_list ts, xs)
      | Some (ListOf k) \<Rightarrow>
          (case map_of ts k of
             None \<Rightarrow> None
           | Some t \<Rightarrow> Some (dependencies_obj t, dependencies t)))"

definition or_new_list :: "(string \<times> Task) list \<Rightarrow> (nat \<times> string list) option \<Rightarrow> nat \<times> string list" where
  "or_new_list ts given =
     (case given of
        None \<Rightarrow> (fresh_list ts, [])
      | Some (obj, xs) \<Rightarrow> if xs = [] then (fresh_list ts, []) else (obj, xs))"

definition set_list :: "nat \<Rightarrow> string list \<Rightarrow> (string \<times> Task) list \<Rightarrow> (string \<times> Task) list" where
  "set_list obj xs ts =
     map (\<lambda>(k, t). (k, if dependencies_obj t = obj then t\<lparr>dependencies := xs\<rparr> else t)) ts"

text \<open>
  \<open>add\<close>. The identifier \<open>str(uuid.uuid4())[:8]\<close> is the parameter \<open>new_id\<close>;
  \<open>new_task\<close> is the call of the constructor \<open>Task(...)\<close>, which stores the list
  object \<open>dependencies or []\<close>, not a copy of it. The new task is BLOCKED when it has
  dependencies that are not all COMPLETED at this moment.
\<close>

definition new_task :: "(string \<times> Task) list \<Rightarrow> string \<Rightarrow> string \<Rightarrow> AddArgs \<Rightarrow> Task" where
  "new_task ts new_id now_iso args =
     \<lparr> ident = new_id, title = a_title args, description = a_description args,
       status = PENDING, priority = a_priority args, category = a_category args,
       assigned_agent = a_assigned_agent args, created_by = a_created_by args,
       created_at = now_iso, deadline = a_deadline args,
       dependencies = snd (or_new_list ts (given_list ts (a_dependencies args))),
       dependencies_obj = fst (or_new_list ts (given_list ts (a_dependencies args))),
       tags = or_empty (a_tags args),
       estimated_duration = a_estimated_duration args, actual_duration = None,
       started_at = None, completed_at = None, notes_str = [],
       metadata = or_empty (a_metadata args) \<rparr>"

definition add :: "string \<Rightarrow> string \<Rightarrow> AddArgs \<Rightarrow> PriorityQueue \<Rightarrow> string \<times> PriorityQueue" where
  "add new_id now_iso args s =
     (let task = new_task (tasks s) new_id now_iso args;
          task1 = (if dependencies task \<noteq> [] then
                     (if \<not> all_deps_complete (tasks s) task then task\<lparr>status := BLOCKED\<rparr>
                      else task)
                   else task);
          s1 = s\<lparr>tasks := AList.update new_id task1 (tasks s)\<rparr>;
          s2 = log_action now_iso ''ADD'' new_id
                 [(''title'', JStr (a_title args)),
                  (''priority'', JStr (priority_name (a_priority args)))] s1
      in (new_id, s2))"

definition set_if_given :: "'a option \<Rightarrow> 'a \<Rightarrow> 'a" where
  "set_if_given vo old = (case vo of None \<Rightarrow> old | Some v \<Rightarrow> v)"

definition update :: "string \<Rightarrow> string \<Rightarrow> UpdateArgs \<Rightarrow> PriorityQueue \<Rightarrow> bool \<times> PriorityQueue" where
  "update now_iso task_id args s =
     (case map_of (tasks s) task_id of
        None \<Rightarrow> (False, s)
      | Some task \<Rightarrow>
          (let task1 = task\<lparr>title := set_if_given (u_title args) (title task),
                            description := set_if_given (u_description args) (description task),
                            priority := set_if_given (u_priority args) (priority task),
                            category := set_if_given (u_category args) (category task),
                            assigned_agent :=
                              set_if_given (u_assigned_agent args) (assigned_agent task),
                            deadline := (case u_deadline args of None \<Rightarrow> deadline task
                                         | Some d \<Rightarrow> Some d),
                            tags := set_if_given (u_tags args) (tags task),
                            estimated_duration :=
                              set_if_given (u_estimated_duration args) (estimated_duration task),
                            notes_str := set_if_given (u_notes args) (notes_str task)\<rparr>;
               s1 = s\<lparr>tasks := AList.update task_id task1 (tasks s)\<rparr>;
               s2 = log_action now_iso ''UPDATE'' task_id [(''fields'', JStr ''updated'')] s1
           in (True, s2)))"

definition delete :: "string \<Rightarrow> string \<Rightarrow> PriorityQueue \<Rightarrow> bool \<times> PriorityQueue" where
  "delete now_iso task_id s =
     (case map_of (tasks s) task_id of
        None \<Rightarrow> (False, s)
      | Some task \<Rightarrow>
          (let s1 = s\<lparr>tasks := AList.delete task_id (tasks s)\<rparr>;
               s2 = log_action now_iso ''DELETE'' task_id [(''title'', JStr (title task))] s1
           in (True, s2)))"

text \<open>
  \<open>start\<close>. \<open>if agent:\<close> holds for an agent that is neither \<open>None\<close> nor the empty
  string.
\<close>

definition start :: "string \<Rightarrow> string \<Rightarrow> string option \<Rightarrow> PriorityQueue \<Rightarrow> bool \<times> PriorityQueue" where
  "start now_iso task_id agent s =
     (case map_of (tasks s) task_id of
        None \<Rightarrow> (False, s)
      | Some task \<Rightarrow>
          if status task = BLOCKED then (False, s)
          else
            (let task1 = task\<lparr>status := IN_PROGRESS, started_at := Some now_iso\<rparr>;
                 s1 = (case agent of
                         None \<Rightarrow> s\<lparr>tasks := AList.update task_id task1 (tasks s)\<rparr>
                       | Some a \<Rightarrow>
                           if a = [] then s\<lparr>tasks := AList.update task_id task1 (tasks s)\<rparr>
                           else
                             s\<lparr>tasks :=
                                  AList.update task_id (task1\<lparr>assigned_agent := a\<rparr>) (tasks s),
                               agents :=
                                  (case map_of (agents s) a of
                                     None \<Rightarrow> agents s
                                   | Some ag \<Rightarrow>
                                       AList.update a
                                         (ag\<lparr>current_task := Some task_id, available := False\<rparr>)
                                         (agents s))\<rparr>);
                 s2 = log_action now_iso ''START'' task_id
                        [(''agent'', (case agent of None \<Rightarrow> JNull | Some a \<Rightarrow> JStr a))] s1
             in (True, s2)))"

text \<open>
  \<open>int((completed - started).total_seconds() / 60)\<close>: the minutes between two
  timestamps, truncated towards zero; \<open>None\<close> is the exception the \<open>try\<close> block of
  \<open>complete\<close> catches. \<open>completed_task\<close> collects the assignments \<open>complete\<close> makes to
  the fields of the task.
\<close>

definition minutes_between :: "iso_parser \<Rightarrow> string \<Rightarrow> string \<Rightarrow> int option" where
  "minutes_between parse started_s completed_s =
     (case parse started_s of
        None \<Rightarrow> None
      | Some started \<Rightarrow>
          (case parse completed_s of
             None \<Rightarrow> None
           | Some completed \<Rightarrow>
               (case datetime_diff completed started of
                  None \<Rightarrow> None
                | Some us \<Rightarrow> Some (sgn us * (\<bar>us\<bar> div 60000000)))))"

definition completed_task :: "iso_parser \<Rightarrow> string \<Rightarrow> string \<Rightarrow> Task \<Rightarrow> Task" where
  "completed_task parse now_iso notes_arg task =
     (let task1 = task\<lparr>status := COMPLETED, completed_at := Some now_iso\<rparr>;
          task2 = (if notes_arg \<noteq> [] then task1\<lparr>notes_str := notes_arg\<rparr> else task1);
          task3 = (case started_at task2 of
                     None \<Rightarrow> task2
                   | Some st \<Rightarrow>
                       if st = [] then task2
                       else (case minutes_between parse st now_iso of
                               None \<Rightarrow> task2
                             | Some m \<Rightarrow> task2\<lparr>actual_duration := Some m\<rparr>))
      in task3)"

definition complete ::
  "iso_parser \<Rightarrow> string \<Rightarrow> string \<Rightarrow> string \<Rightarrow> PriorityQueue \<Rightarrow> bool \<times> PriorityQueue" where
  "complete parse now_iso task_id notes_arg s =
     (case map_of (tasks s) task_id of
        None \<Rightarrow> (False, s)
      | Some task \<Rightarrow>
          (let task3 = completed_task parse now_iso notes_arg task;
               s1 = s\<lparr>tasks := AList.update task_id task3 (tasks s)\<rparr>;
               s2 = (case map_of (agents s1) (assigned_agent task3) of
                       None \<Rightarrow> s1
                     | Some agent \<Rightarrow>
                         s1\<lparr>agents :=
                              AList.update (assigned_agent task3)
                                (agent\<lparr>current_task := None, available := True,
                                       completed_today := completed_today agent + 1,
                                       last_active := now_iso\<rparr>)
                                (agents s1)\<rparr>);
               s3 = s2\<lparr>tasks := update_blocked_status (tasks s2)\<rparr>;
               s4 = log_action now_iso ''COMPLETE'' task_id
                      [(''duration'', (case actual_duration task3 of None \<Rightarrow> JNull
                                       | Some m \<Rightarrow> JInt m))] s3
           in (True, s4)))"

definition fail :: "string \<Rightarrow> string \<Rightarrow> string \<Rightarrow> PriorityQueue \<Rightarrow> bool \<times> PriorityQueue" where
  "fail now_iso task_id reason s =
     (case map_of (tasks s) task_id of
        None \<Rightarrow> (False, s)
      | Some task \<Rightarrow>
          (let task1 = task\<lparr>status := FAILED, completed_at := Some now_iso\<rparr>;
               task2 = (if reason \<noteq> [] then task1\<lparr>notes_str := ''FAILED: '' @ reason\<rparr>
                        else task1);
               s1 = s\<lparr>tasks := AList.update task_id task2 (tasks s)\<rparr>;
               s2 = (case map_of (agents s1) (assigned_agent task2) of
                       None \<Rightarrow> s1
                     | Some agent \<Rightarrow>
                         s1\<lparr>agents :=
                              AList.update (assigned_agent task2)
                                (agent\<lparr>current_task := None, available := True\<rparr>)
                                (agents s1)\<rparr>);
               s3 = log_action now_iso ''FAIL'' task_id [(''reason'', JStr reason)] s2
           in (True, s3)))"

text \<open>
  \<open>cancel\<close>. The agent branch tests the status of the task after the assignment of
  CANCELLED, as the source does.
\<close>

definition cancel :: "string \<Rightarrow> string \<Rightarrow> string \<Rightarrow> PriorityQueue \<Rightarrow> bool \<times> PriorityQueue" where
  "cancel now_iso task_id reason s =
     (case map_of (tasks s) task_id of
        None \<Rightarrow> (False, s)
      | Some task \<Rightarrow>
          (let task1 = task\<lparr>status := CANCELLED\<rparr>;
               task2 = (if reason \<noteq> [] then task1\<lparr>notes_str := ''CANCELLED: '' @ reason\<rparr>
                        else task1);
               s1 = s\<lparr>tasks := AList.update task_id task2 (tasks s)\<rparr>;
               s2 = (case map_of (agents s1) (assigned_agent task2) of
                       None \<Rightarrow> s1
                     | Some agent \<Rightarrow>
                         if status task2 = IN_PROGRESS
                         then s1\<lparr>agents :=
                                   AList.update (assigned_agent task2)
                                     (agent\<lparr>current_task := None, available := True\<rparr>)
                                     (agents s1)\<rparr>
                         else s1);
               s3 = log_action now_iso ''CANCEL'' task_id [(''reason'', JStr reason)] s2
           in (True, s3)))"

subsection \<open>Dependencies\<close>

text \<open>
  \<open>_would_create_cycle\<close>: the nested function \<open>dfs\<close> with its set \<open>visited\<close>, which
  the recursive calls share. The model passes the set in and returns it with the answer;
  \<open>dfs_deps\<close> is the loop \<open>for dep in task.dependencies\<close>, which returns at the first
  dependency whose search succeeds.

  \<open>dfs\<close> calls itself once for every level of the dependency graph it descends, and the
  interpreter raises \<open>RecursionError\<close> when the call stack would exceed its limit (1000
  frames by default). \<open>depth\<close> is the number of nested calls of \<open>dfs\<close> that the limit
  still allows when \<open>_would_create_cycle\<close> runs: 997 when \<open>add_dependency\<close> is called
  from the top level of a script, fewer from a deeper caller. The call that exceeds the
  limit raises before its body runs. Nothing in the module catches the exception: it
  leaves \<open>add_dependency\<close>, which has assigned nothing at that point.
\<close>

datatype py_error = RecursionError

fun dfs ::
    "nat \<Rightarrow> (string \<times> Task) list \<Rightarrow> string \<Rightarrow> string \<Rightarrow> string set \<Rightarrow> py_error + bool \<times> string set"
  and dfs_deps ::
    "nat \<Rightarrow> (string \<times> Task) list \<Rightarrow> string \<Rightarrow> string list \<Rightarrow> string set
       \<Rightarrow> py_error + bool \<times> string set"
where
  "dfs 0 ts task_id current visited = Inl RecursionError"
| "dfs (Suc depth) ts task_id current visited =
     (if current = task_id then Inr (True, visited)
      else if current \<in> visited then Inr (False, visited)
      else (case map_of ts current of
              None \<Rightarrow> Inr (False, insert current visited)
            | Some task \<Rightarrow>
                dfs_deps depth ts task_id (dependencies task) (insert current visited)))"
| "dfs_deps depth ts task_id [] visited = Inr (False, visited)"
| "dfs_deps depth ts task_id (dep # deps) visited =
     (case dfs depth ts task_id dep visited of
        Inl e \<Rightarrow> Inl e
      | Inr (found, visited1) \<Rightarrow>
          if found then Inr (True, visited1) else dfs_deps depth ts task_id deps visited1)"

definition would_create_cycle ::
  "nat \<Rightarrow> (string \<times> Task) list \<Rightarrow> string \<Rightarrow> string \<Rightarrow> py_error + bool" where
  "would_create_cycle depth ts task_id new_dep =
     (case dfs depth ts task_id new_dep {} of
        Inl e \<Rightarrow> Inl e
      | Inr (found, visited) \<Rightarrow> Inr found)"

text \<open>
  \<open>add_dependency\<close> and \<open>remove_dependency\<close>. \<open>list.append\<close> and \<open>list.remove\<close>
  change the list object of the task in place (\<open>set_list\<close>); \<open>list.remove\<close> deletes
  the first occurrence, as \<open>remove1\<close> does. \<open>remove_dependency\<close> writes no history
  entry.
\<close>

definition add_dependency ::
  "nat \<Rightarrow> string \<Rightarrow> string \<Rightarrow> string \<Rightarrow> PriorityQueue \<Rightarrow> py_error + bool \<times> PriorityQueue" where
  "add_dependency depth now_iso task_id depends_on s =
     (case map_of (tasks s) task_id of
        None \<Rightarrow> Inr (False, s)
      | Some task \<Rightarrow>
          if map_of (tasks s) depends_on = None then Inr (False, s)
          else (case would_create_cycle depth (tasks s) task_id depends_on of
                  Inl e \<Rightarrow> Inl e
                | Inr cyclic \<Rightarrow>
                    if cyclic then Inr (False, s)
                    else
                      (let ts1 = (if depends_on \<notin> set (dependencies task)
                                  then set_list (dependencies_obj task)
                                         (dependencies task @ [depends_on]) (tasks s)
                                  else tasks s);
                           s2 = s\<lparr>tasks := update_blocked_status ts1\<rparr>;
                           s3 = log_action now_iso ''ADD_DEPENDENCY'' task_id
                                  [(''depends_on'', JStr depends_on)] s2
                       in Inr (True, s3))))"

definition remove_dependency :: "string \<Rightarrow> string \<Rightarrow> PriorityQueue \<Rightarrow> bool \<times> PriorityQueue" where
  "remove_dependency task_id depends_on s =
     (case map_of (tasks s) task_id of
        None \<Rightarrow> (False, s)
      | Some task \<Rightarrow>
          (let ts1 = (if depends_on \<in> set (dependencies task)
                      then set_list (dependencies_obj task)
                             (remove1 depends_on (dependencies task)) (tasks s)
                      else tasks s);
               s2 = s\<lparr>tasks := update_blocked_status ts1\<rparr>
           in (True, s2)))"

subsection \<open>The mutating operations as one step function\<close>

text \<open>
  The nine mutating operations of the store, with their arguments (for
  \<open>add_dependency\<close> also the depth of recursion left to its call); \<open>operation_target\<close>
  is the task the operation is applied to (for \<open>add\<close>, the id it allocates). A call of
  \<open>add_dependency\<close> that raises leaves the store as it was. A store is reachable when it
  results from a fresh queue by these operations and by the status pass that the read
  operations (\<open>get_next\<close>, \<open>get_queue\<close>, \<open>reorder\<close>) run.
\<close>

datatype operation =
    Add string AddArgs
  | Update string UpdateArgs
  | Delete string
  | Start string "string option"
  | Complete string string
  | Fail string string
  | Cancel string string
  | AddDependency nat string string
  | RemoveDependency string string

fun apply_operation :: "iso_parser \<Rightarrow> string \<Rightarrow> operation \<Rightarrow> PriorityQueue \<Rightarrow> PriorityQueue" where
  "apply_operation parse now_iso (Add new_id args) s = snd (add new_id now_iso args s)"
| "apply_operation parse now_iso (Update task_id args) s = snd (update now_iso task_id args s)"
| "apply_operation parse now_iso (Delete task_id) s = snd (delete now_iso task_id s)"
| "apply_operation parse now_iso (Start task_id agent) s = snd (start now_iso task_id agent s)"
| "apply_operation parse now_iso (Complete task_id notes_arg) s =
     snd (complete parse now_iso task_id notes_arg s)"
| "apply_operation parse now_iso (Fail task_id reason) s = snd (fail now_iso task_id reason s)"
| "apply_operation parse now_iso (Cancel task_id reason) s = snd (cancel now_iso task_id reason s)"
| "apply_operation parse now_iso (AddDependency depth task_id depends_on) s =
     (case add_dependency depth now_iso task_id depends_on s of
        Inl e \<Rightarrow> s
      | Inr (ok, s1) \<Rightarrow> s1)"
| "apply_operation parse now_iso (RemoveDependency task_id depends_on) s =
     snd (remove_dependency task_id depends_on s)"

fun operation_target :: "operation \<Rightarrow> string" where
  "operation_target (Add new_id args) = new_id"
| "operation_target (Update task_id args) = task_id"
| "operation_target (Delete task_id) = task_id"
| "operation_target (Start task_id agent) = task_id"
| "operation_target (Complete task_id notes_arg) = task_id"
| "operation_target (Fail task_id reason) = task_id"
| "operation_target (Cancel task_id reason) = task_id"
| "operation_target (AddDependency depth task_id depends_on) = task_id"
| "operation_target (RemoveDependency task_id depends_on) = task_id"

fun is_complete :: "operation \<Rightarrow> bool" where
  "is_complete (Complete task_id notes_arg) = True"
| "is_complete other = False"

inductive reachable :: "iso_parser \<Rightarrow> PriorityQueue \<Rightarrow> bool" for parse where
  fresh: "reachable parse (new_queue now_iso)"
| mutate: "reachable parse s \<Longrightarrow> reachable parse (apply_operation parse now_iso oper s)"
| recompute: "reachable parse s \<Longrightarrow> reachable parse (s\<lparr>tasks := update_blocked_status (tasks s)\<rparr>)"

subsection \<open>Queue operations\<close>

text \<open>
  \<open>get_next\<close>. It runs \<open>_update_blocked_status\<close> first (the store it leaves is the
  second component of the result). \<open>if agent:\<close> holds for an agent that is neither
  \<open>None\<close> nor the empty string. \<open>list.sort\<close> with a key is stable, as \<open>sort_key\<close>
  is; \<open>candidates[0]\<close> is read only from a list that is not empty. The clock is read
  once for the whole call.
\<close>

definition get_next ::
  "iso_parser \<Rightarrow> int \<Rightarrow> string option \<Rightarrow> PriorityQueue \<Rightarrow> Task option \<times> PriorityQueue" where
  "get_next parse now agent s =
     (let ts1 = update_blocked_status (tasks s);
          s1 = s\<lparr>tasks := ts1\<rparr>;
          candidates = filter (\<lambda>task. status task = PENDING) (map snd ts1)
      in if candidates = [] then (None, s1)
         else
           (let candidates1 =
                  (case agent of
                     None \<Rightarrow> candidates
                   | Some a \<Rightarrow>
                       if a = [] then candidates
                       else filter (\<lambda>task. assigned_agent task = ''ANY'' \<or> assigned_agent task = a)
                              candidates)
            in if candidates1 = [] then (None, s1)
               else (Some (hd (sort_key (calculate_score parse now) candidates1)), s1)))"



subsection \<open>The score as the specification words it\<close>

text \<open>
  Section 4.1 of the specification describes the score as the base priority multiplied in
  turn by one deadline bracket factor, by the age factors and by the blocked penalty. The
  next definitions follow those words: \<open>hours_until\<close> and \<open>age_hours\<close> are the time
  differences in hours, \<open>None\<close> when no deadline is set or the \<open>try\<close> block raises (a
  string that is not a timestamp, or an offset-aware timestamp, whose difference to the
  naive clock is a \<open>TypeError\<close>); \<open>bracket_factors\<close> and \<open>aging_factors\<close> list the
  float factors that apply, in the order of application.
\<close>

definition hours_until :: "iso_parser \<Rightarrow> int \<Rightarrow> Task \<Rightarrow> rat option" where
  "hours_until parse now t =
     (case deadline t of
        None \<Rightarrow> None
      | Some s \<Rightarrow>
          if s = [] then None
          else (case parse s of
                  Some (Naive d) \<Rightarrow> Some (of_int (d - now) / 3600000000)
                | _ \<Rightarrow> None))"

definition age_hours :: "iso_parser \<Rightarrow> int \<Rightarrow> Task \<Rightarrow> rat option" where
  "age_hours parse now t =
     (case parse (created_at t) of
        Some (Naive c) \<Rightarrow> Some (of_int (now - c) / 3600000000)
      | _ \<Rightarrow> None)"

definition bracket_factors :: "rat \<Rightarrow> rat list" where
  "bracket_factors h =
     (if h < 0 then [fl (1 / 10)] else if h < 1 then [fl (3 / 10)]
      else if h < 4 then [fl (5 / 10)] else if h < 24 then [fl (7 / 10)]
      else if h < 72 then [fl (9 / 10)] else [])"

definition aging_factors :: "rat \<Rightarrow> rat list" where
  "aging_factors a =
     (if a > 24 then [fl (95 / 100)] else []) @ (if a > 72 then [fl (90 / 100)] else [])"

definition score_factors :: "iso_parser \<Rightarrow> int \<Rightarrow> Task \<Rightarrow> rat list" where
  "score_factors parse now t =
     (case hours_until parse now t of None \<Rightarrow> [] | Some h \<Rightarrow> bracket_factors h)
     @ (case age_hours parse now t of None \<Rightarrow> [] | Some a \<Rightarrow> aging_factors a)
     @ (if status t = BLOCKED then [10] else [])"

definition seven_days :: int where
  "seven_days = 7 * 24 * 3600 * 1000000"

subsection \<open>Dependency paths\<close>

text \<open>
  \<open>depends_path ts a b\<close>: \<open>b\<close> is reachable from \<open>a\<close> by following the dependency
  lists of tasks that are in the dictionary (a path of length zero included).
  \<open>explored\<close> is what a search that answered false has established about the ids it
  added to \<open>visited\<close>.
\<close>

inductive depends_path :: "(string \<times> Task) list \<Rightarrow> string \<Rightarrow> string \<Rightarrow> bool" for ts where
  here: "depends_path ts a a"
| edge: "map_of ts a = Some task \<Longrightarrow> d \<in> set (dependencies task) \<Longrightarrow> depends_path ts d b
          \<Longrightarrow> depends_path ts a b"


definition explored :: "(string \<times> Task) list \<Rightarrow> string \<Rightarrow> string set \<Rightarrow> string set \<Rightarrow> bool" where
  "explored ts task_id visited visited1 \<longleftrightarrow>
     visited \<subseteq> visited1
     \<and> (\<forall>x\<in>visited1 - visited. x \<noteq> task_id
           \<and> (\<forall>task. map_of ts x = Some task \<longrightarrow> set (dependencies task) \<subseteq> visited1))"


subsection \<open>Consistency of the blocked status\<close>

text \<open>
  The stored status BLOCKED agrees with the dependencies: a BLOCKED task has a dependency
  that is missing or not COMPLETED.
\<close>

definition blocked_consistent :: "(string \<times> Task) list \<Rightarrow> bool" where
  "blocked_consistent ts \<longleftrightarrow>
     (\<forall>k task. map_of ts k = Some task \<longrightarrow> status task = BLOCKED \<longrightarrow>
        dependencies task \<noteq> [] \<and> \<not> all_deps_complete ts task)"

text \<open>
  Tasks that hold the same list object have the same dependencies.
\<close>

definition alias_consistent :: "(string \<times> Task) list \<Rightarrow> bool" where
  "alias_consistent ts \<longleftrightarrow>
     (\<forall>k k' t t'. map_of ts k = Some t \<longrightarrow> map_of ts k' = Some t' \<longrightarrow>
        dependencies_obj t = dependencies_obj t' \<longrightarrow> dependencies t = dependencies t')"

text \<open>
  \<open>removes_from_list_of oper ts task\<close>: the operation is a \<open>remove_dependency\<close> whose
  target holds the same dependency list object as \<open>task\<close>.
\<close>

fun removes_from_list_of :: "operation \<Rightarrow> (string \<times> Task) list \<Rightarrow> Task \<Rightarrow> bool" where
  "removes_from_list_of (RemoveDependency task_id depends_on) ts task =
     (case map_of ts task_id of
        None \<Rightarrow> False
      | Some t \<Rightarrow> dependencies_obj t = dependencies_obj task)"
| "removes_from_list_of oper ts task = False"

subsection \<open>Example data\<close>

text \<open>
  A parser that knows six timestamps, counted in microseconds from 2026-01-01T00:00:00,
  and a task, used where a theorem is instantiated at a concrete input.
\<close>

definition example_parse :: iso_parser where
  "example_parse s =
     (if s = ''2026-01-01T00:00:00'' then Some (Naive 0)
      else if s = ''2026-01-02T00:00:00'' then Some (Naive 86400000000)
      else if s = ''2026-01-02T00:30:00'' then Some (Naive 88200000000)
      else if s = ''2026-01-04T00:00:00'' then Some (Naive 259200000000)
      else if s = ''2026-01-09T00:00:00'' then Some (Naive 691200000000)
      else if s = ''2026-01-01T00:00:00+00:00'' then Some (Aware 0)
      else None)"

definition example_task :: Task where
  "example_task =
     \<lparr> ident = ''a1b2c3d4'', title = ''Fix login bug'', description = [],
       status = PENDING, priority = BACKLOG, category = OTHER, assigned_agent = ''ANY'',
       created_by = [], created_at = ''2026-01-01T00:00:00'',
       deadline = Some ''2026-01-01T00:00:00'', dependencies = [], dependencies_obj = 0,
       tags = [],
       estimated_duration = 30, actual_duration = None, started_at = None,
       completed_at = None, notes_str = [], metadata = [] \<rparr>"

text \<open>
  A store with three tasks and one agent: \<open>a1b2c3d4\<close> is assigned to ATLAS, who is
  busy with another task; \<open>main0001\<close> depends on an id that is not in the store;
  \<open>any00001\<close> has no deadline and is open to any agent. Each task holds a dependency
  list of its own.
\<close>

definition example_agent :: AgentStatus where
  "example_agent =
     \<lparr> name = ''ATLAS'', available = False, current_task = Some ''ffffffff'',
       last_active = ''2026-01-01T00:00:00'', completed_today = 0,
       capabilities = [''DEVELOPMENT'', ''TESTING'', ''BUGFIX'', ''FEATURE''],
       max_concurrent = 1 \<rparr>"

definition example_queue :: PriorityQueue where
  "example_queue =
     \<lparr> tasks = [(''a1b2c3d4'', example_task\<lparr>assigned_agent := ''ATLAS''\<rparr>),
                (''main0001'', example_task\<lparr>ident := ''main0001'',
                                             dependencies := [''gone0000''],
                                             dependencies_obj := 1\<rparr>),
                (''any00001'', example_task\<lparr>ident := ''any00001'', deadline := None,
                                             dependencies_obj := 2\<rparr>)],
       agents = [(''ATLAS'', example_agent)],
       history = [] \<rparr>"




text \<open>A store where \<open>main0002\<close> depends on \<open>dep00001\<close>.\<close>

definition example_chain :: PriorityQueue where
  "example_chain =
     \<lparr> tasks = [(''dep00001'', example_task\<lparr>ident := ''dep00001''\<rparr>),
                (''main0002'', example_task\<lparr>ident := ''main0002'', status := BLOCKED,
                                             dependencies := [''dep00001''],
                                             dependencies_obj := 1\<rparr>)],
       agents = [(''ATLAS'', example_agent)],
       history = [] \<rparr>"

text \<open>
  A run from a fresh queue: \<open>dep = add("Dep")\<close>, then \<open>deps = [dep]\<close> and
  \<open>add("Main", dependencies=deps)\<close>, then \<open>add("Alias", dependencies=deps)\<close> with the
  same list, then \<open>add("Copy", dependencies=[dep])\<close> with a list of its own.
  \<open>example_added\<close> is the task \<open>add\<close> stores at the time 2026-01-01T00:00:00 for the
  default arguments, up to the fields given.
\<close>

definition example_dep_args :: AddArgs where
  "example_dep_args =
     \<lparr> a_title = ''Dep'', a_description = [], a_priority = MEDIUM, a_category = OTHER,
       a_assigned_agent = ''ANY'', a_created_by = [], a_deadline = None,
       a_dependencies = None, a_tags = None, a_estimated_duration = 30,
       a_metadata = None \<rparr>"

definition example_main_args :: AddArgs where
  "example_main_args =
     example_dep_args\<lparr>a_title := ''Main'', a_dependencies := Some (Fresh [''dep00001''])\<rparr>"

definition example_alias_args :: AddArgs where
  "example_alias_args =
     example_dep_args\<lparr>a_title := ''Alias'', a_dependencies := Some (ListOf ''main0002'')\<rparr>"

definition example_copy_args :: AddArgs where
  "example_copy_args =
     example_dep_args\<lparr>a_title := ''Copy'', a_dependencies := Some (Fresh [''dep00001''])\<rparr>"

definition example_run :: PriorityQueue where
  "example_run =
     snd (add ''copy0004'' ''2026-01-01T00:00:00'' example_copy_args
       (snd (add ''alia0003'' ''2026-01-01T00:00:00'' example_alias_args
          (snd (add ''main0002'' ''2026-01-01T00:00:00'' example_main_args
             (snd (add ''dep00001'' ''2026-01-01T00:00:00'' example_dep_args
                (new_queue ''2026-01-01T00:00:00''))))))))"

definition example_added :: "string \<Rightarrow> string \<Rightarrow> TaskStatus \<Rightarrow> string list \<Rightarrow> nat \<Rightarrow> Task" where
  "example_added task_id ttl st deps obj =
     \<lparr> ident = task_id, title = ttl, description = [],
       status = st, priority = MEDIUM, category = OTHER, assigned_agent = ''ANY'',
       created_by = [], created_at = ''2026-01-01T00:00:00'',
       deadline = None, dependencies = deps, dependencies_obj = obj, tags = [],
       estimated_duration = 30, actual_duration = None, started_at = None,
       completed_at = None, notes_str = [], metadata = [] \<rparr>"

text \<open>
  A run that builds a chain of \<open>n + 1\<close> tasks: \<open>add\<close> a task, then \<open>n\<close> times \<open>add\<close>
  a task that depends on the one added before. \<open>chain_id i\<close> is the identifier of the
  task added by step \<open>i\<close>.
\<close>

definition chain_id :: "nat \<Rightarrow> string" where
  "chain_id i = CHR ''t'' # replicate i CHR ''0''"

definition chain_args :: "nat \<Rightarrow> AddArgs" where
  "chain_args i =
     example_dep_args\<lparr>a_title := ''Step'',
       a_dependencies := (if i = 0 then None else Some (Fresh [chain_id (i - 1)]))\<rparr>"

fun chain_run :: "nat \<Rightarrow> PriorityQueue" where
  "chain_run 0 =
     snd (add (chain_id 0) ''2026-01-01T00:00:00'' (chain_args 0)
       (new_queue ''2026-01-01T00:00:00''))"
| "chain_run (Suc n) =
     snd (add (chain_id (Suc n)) ''2026-01-01T00:00:00'' (chain_args (Suc n)) (chain_run n))"

section \<open>Properties of the score\<close>

subsection \<open>Rounding\<close>

lemma round_half_even_bounds:
  "z - 1 / 2 \<le> of_int (round_half_even z) \<and> of_int (round_half_even z) \<le> z + 1 / 2"
proof -
  define n where "n = \<lfloor>z\<rfloor>"
  have n: "of_int n \<le> z" "z < of_int n + 1"
    unfolding n_def by linarith+
  have r: "round_half_even z = n \<and> z - of_int n \<le> 1 / 2
      \<or> round_half_even z = n + 1 \<and> 1 / 2 \<le> z - of_int n"
    unfolding round_half_even_def Let_def n_def [symmetric] by auto
  from r n show ?thesis
    by (auto simp: algebra_simps)
qed

lemma binade_invariant:
  assumes "binade n y s = (y', s')" and "0 < y" and "0 < s"
  shows "y' * s' = y * s \<and> 0 < s' \<and> min y 1 \<le> y'"
  using assms
proof (induction n arbitrary: y s)
  case 0
  then show ?case by simp
next
  case (Suc n)
  show ?case
  proof (cases "y < 1")
    case True
    with Suc.prems have b: "binade n (2 * y) (s / 2) = (y', s')"
      by simp
    from Suc.IH [OF b] Suc.prems have "y' * s' = 2 * y * (s / 2) \<and> 0 < s' \<and> min (2 * y) 1 \<le> y'"
      by simp
    with True Suc.prems show ?thesis
      by (auto simp: min_def split: if_splits)
  next
    case False
    show ?thesis
    proof (cases "2 \<le> y")
      case True
      with False Suc.prems have b: "binade n (y / 2) (2 * s) = (y', s')"
        by simp
      from Suc.IH [OF b] Suc.prems have "y' * s' = y / 2 * (2 * s) \<and> 0 < s' \<and> min (y / 2) 1 \<le> y'"
        by simp
      with True show ?thesis
        by (auto simp: min_def split: if_splits)
    next
      case F2: False
      with False Suc.prems show ?thesis
        by (auto simp: min_def)
    qed
  qed
qed

lemma fl_error:
  assumes "0 < z"
  shows "\<bar>fl z - z\<bar> \<le> max z 1 / 2 ^ 53"
proof -
  obtain y s where b: "binade 1100 \<bar>z\<bar> 1 = (y, s)"
    by (cases "binade 1100 \<bar>z\<bar> 1")
  with assms have b': "binade 1100 z 1 = (y, s)"
    by simp
  from binade_invariant [OF b' assms] have ys: "y * s = z" and s: "0 < s" and y: "min z 1 \<le> y"
    by simp_all
  define m :: rat where "m = of_int (round_half_even (y * 2 ^ 52))"
  have flz: "fl z = m / 2 ^ 52 * s"
    using assms b by (simp add: fl_def m_def)
  have m: "\<bar>m - y * 2 ^ 52\<bar> \<le> 1 / 2"
    using round_half_even_bounds [of "y * 2 ^ 52"] unfolding m_def by linarith
  have "fl z - z = m / 2 ^ 52 * s - y * s"
    by (simp only: flz ys)
  also have "\<dots> = (m - y * 2 ^ 52) * (s / 2 ^ 52)"
    by (simp add: field_simps)
  finally have d: "fl z - z = (m - y * 2 ^ 52) * (s / 2 ^ 52)" .
  have sp: "\<bar>s / 2 ^ 52\<bar> = s / 2 ^ 52"
    using s by simp
  have "\<bar>fl z - z\<bar> = \<bar>m - y * 2 ^ 52\<bar> * (s / 2 ^ 52)"
    by (simp only: d abs_mult sp)
  also have "\<dots> \<le> 1 / 2 * (s / 2 ^ 52)"
    using m s by (intro mult_right_mono) simp_all
  also have "\<dots> = s / 2 ^ 53"
    by simp
  finally have e: "\<bar>fl z - z\<bar> \<le> s / 2 ^ 53" .
  have ypos: "0 < y"
    using y assms by (auto simp: min_def split: if_splits)
  have "s \<le> max z 1"
  proof (cases "z \<le> 1")
    case True
    with y have "z \<le> y" by simp
    then have "z * s \<le> y * s" using s by (intro mult_right_mono) simp_all
    with ys have "z * s \<le> z * 1" by simp
    with assms have "s \<le> 1" by (simp only: mult_le_cancel_left_pos)
    then show ?thesis by simp
  next
    case False
    with y have "1 \<le> y" by simp
    then have "1 * s \<le> y * s" using s by (intro mult_right_mono) simp_all
    with ys show ?thesis by simp
  qed
  then have "s / 2 ^ 53 \<le> max z 1 / 2 ^ 53"
    by (simp add: divide_right_mono)
  with e show ?thesis by linarith
qed

lemma fl_near:
  assumes "0 < z" and "z \<le> 64"
  shows "z - 1 / 100000000 \<le> fl z \<and> fl z \<le> z + 1 / 100000000"
proof -
  have "max z 1 / 2 ^ 53 \<le> 64 / 2 ^ 53"
    using assms by (intro divide_right_mono) simp_all
  also have "(64::rat) / 2 ^ 53 \<le> 1 / 100000000"
    by simp
  finally have "max z 1 / 2 ^ 53 \<le> 1 / 100000000" .
  with fl_error [OF assms(1)] have "\<bar>fl z - z\<bar> \<le> 1 / 100000000"
    by (rule order_trans)
  then show ?thesis
    by linarith
qed

lemma fmul_near:
  assumes "1 / 1000 \<le> x" and "x \<le> 6" and "1 / 100 \<le> c" and "c \<le> 10"
  shows "x * c - 1 / 100000000 \<le> fmul x c \<and> fmul x c \<le> x * c + 1 / 100000000"
proof -
  have "0 < x * c"
    using assms by (intro mult_pos_pos) simp_all
  moreover have "x * c \<le> 6 * 10"
    using assms by (intro mult_mono) simp_all
  ultimately show ?thesis
    unfolding fmul_def by (intro fl_near) simp_all
qed

lemma fmul_lower:
  assumes "1 / 1000 \<le> x" and "x \<le> 6" and "k + 1 / 100 \<le> c" and "c \<le> 10" and "0 \<le> k"
  shows "k * x \<le> fmul x c"
proof -
  have "x * (k + 1 / 100) \<le> x * c"
    using assms by (intro mult_left_mono) simp_all
  then have "k * x + x / 100 \<le> x * c"
    by (simp add: algebra_simps)
  moreover have "x * c - 1 / 100000000 \<le> fmul x c"
    using fmul_near [of x c] assms by simp
  ultimately show ?thesis
    using assms(1) by simp
qed

lemma fmul_upper:
  assumes "1 / 1000 \<le> x" and "x \<le> 6" and "1 / 100 \<le> c" and "c + 1 / 100 \<le> k" and "k \<le> 10"
  shows "fmul x c \<le> k * x"
proof -
  have "x * c \<le> x * (k - 1 / 100)"
    using assms by (intro mult_left_mono) simp_all
  then have "x * c \<le> k * x - x / 100"
    by (simp add: algebra_simps)
  moreover have "fmul x c \<le> x * c + 1 / 100000000"
    using fmul_near [of x c] assms by simp
  ultimately show ?thesis
    using assms(1) by simp
qed

lemma fmul_gap:
  assumes "1 / 1000 \<le> x" and "x + g \<le> y" and "y \<le> 6" and "1 / 1000 \<le> g"
    and "89 / 100 \<le> c" and "c \<le> 10"
  shows "fmul x c + 8 / 10 * g \<le> fmul y c"
proof -
  have "g * (89 / 100) \<le> g * c"
    using assms by (intro mult_left_mono) simp_all
  moreover have "g * c \<le> (y - x) * c"
    using assms by (intro mult_right_mono) simp_all
  ultimately have "89 / 100 * g \<le> y * c - x * c"
    by (simp add: algebra_simps)
  moreover have "fmul x c \<le> x * c + 1 / 100000000"
    using fmul_near [of x c] assms by simp
  moreover have "y * c - 1 / 100000000 \<le> fmul y c"
    using fmul_near [of y c] assms by simp
  ultimately show ?thesis
    using assms(4) by simp
qed

lemma literal_range:
  assumes "1 / 10 \<le> q" and "q \<le> 95 / 100"
  shows "q - 1 / 100000000 \<le> fl q \<and> fl q \<le> q + 1 / 100000000"
  using fl_near [of q] assms by simp

subsection \<open>The factors\<close>

lemma deadline_urgency_factors:
  "deadline_urgency parse now t x =
     foldl fmul x (case hours_until parse now t of None \<Rightarrow> [] | Some h \<Rightarrow> bracket_factors h)"
  by (simp add: deadline_urgency_def hours_until_def bracket_factors_def hours_of_micros_def Let_def
      split: option.split datetime.split)

lemma age_factor_factors:
  "age_factor parse now t x =
     foldl fmul x (case age_hours parse now t of None \<Rightarrow> [] | Some a \<Rightarrow> aging_factors a)"
  by (simp add: age_factor_def age_hours_def aging_factors_def hours_of_micros_def Let_def
      split: option.split datetime.split)

lemma priority_value_range: "1 \<le> priority_value p \<and> priority_value p \<le> 5"
  by (cases p) simp_all

lemma calculate_score_factors:
  "calculate_score parse now t =
     foldl fmul (of_int (priority_value (priority t))) (score_factors parse now t)"
  by (simp add: calculate_score_def score_factors_def Let_def deadline_urgency_factors
      age_factor_factors)

text \<open>
  Claim C1. For every task and time \<open>now\<close>, the score starts from the numeric priority
  (1..5) and is multiplied, in float arithmetic and in this order, by: one bracket factor
  when a deadline is set and parses to a timestamp without UTC offset, the first whose
  strict comparison matches (0.1, 0.3, 0.5, 0.7, 0.9, none from 72 hours on); 0.95 for an
  age above 24 hours and 0.90 in addition for an age above 72 hours; 10 for status
  BLOCKED. A deadline or creation time that is not a timestamp, or that carries a UTC
  offset, contributes no factor, and the score is always returned (the function is total).
\<close>

theorem score_structure:
  "calculate_score parse now t =
     foldl fmul (of_int (priority_value (priority t)))
       ((case hours_until parse now t of None \<Rightarrow> [] | Some h \<Rightarrow> bracket_factors h)
        @ (case age_hours parse now t of None \<Rightarrow> [] | Some a \<Rightarrow> aging_factors a)
        @ (if status t = BLOCKED then [10] else []))
   \<and> 1 \<le> priority_value (priority t) \<and> priority_value (priority t) \<le> 5"
  by (simp add: calculate_score_factors score_factors_def priority_value_range)

text \<open>
  The claim as the specification words it fails for a deadline that parses but carries a
  UTC offset: the task below is overdue by a day, and its score is the bare priority 5,
  not 5 times 0.1.
\<close>

theorem score_aware_deadline_counterexample:
  "deadline (example_task\<lparr>deadline := Some ''2026-01-01T00:00:00+00:00''\<rparr>)
     = Some ''2026-01-01T00:00:00+00:00''
   \<and> example_parse ''2026-01-01T00:00:00+00:00'' = Some (Aware 0)
   \<and> calculate_score example_parse 86400000000
        (example_task\<lparr>deadline := Some ''2026-01-01T00:00:00+00:00''\<rparr>) = 5
   \<and> fmul 5 (fl (1 / 10)) = 1 / 2"
proof -
  have "fmul 5 (fl (1 / 10)) = 1 / 2"
    by code_simp
  then show ?thesis
    by (simp add: calculate_score_def deadline_urgency_def age_factor_def hours_of_micros_def
        Let_def example_parse_def example_task_def)
qed

text \<open>
  The factors at concrete inputs. An overdue BACKLOG task scores 0.5. An overdue MEDIUM
  task scores 0.30000000000000004, the float product of 3.0 and 0.1, which is not three
  tenths. A CRITICAL task due in 48 hours scores 0.9, and a MEDIUM task due in 30 minutes
  scores 0.8999999999999999, the float product of 3.0 and 0.3.
\<close>

lemma score_overdue_example: "calculate_score example_parse 86400000000 example_task = 1 / 2"
proof -
  have "fmul 5 (fl (1 / 10)) = 1 / 2"
    by code_simp
  then show ?thesis
    by (simp add: calculate_score_def deadline_urgency_def age_factor_def hours_of_micros_def
        Let_def example_parse_def example_task_def)
qed

lemma score_medium_overdue_example:
  "calculate_score example_parse 86400000000 (example_task\<lparr>priority := MEDIUM\<rparr>)
     = 5404319552844596 / 18014398509481984
   \<and> (5404319552844596 / 18014398509481984 :: rat) \<noteq> 3 / 10"
proof -
  have "fmul 3 (fl (1 / 10)) = 5404319552844596 / 18014398509481984"
    by code_simp
  then show ?thesis
    by (simp add: calculate_score_def deadline_urgency_def age_factor_def hours_of_micros_def
        Let_def example_parse_def example_task_def)
qed

lemma score_tie_example:
  "calculate_score example_parse 86400000000
     (example_task\<lparr>priority := MEDIUM, deadline := Some ''2026-01-02T00:30:00''\<rparr>)
   < calculate_score example_parse 86400000000
       (example_task\<lparr>priority := CRITICAL, deadline := Some ''2026-01-04T00:00:00''\<rparr>)"
proof -
  have "fmul 3 (fl (3 / 10)) < fmul 1 (fl (9 / 10))"
    by code_simp
  then show ?thesis
    by (simp add: calculate_score_def deadline_urgency_def age_factor_def hours_of_micros_def
        Let_def example_parse_def example_task_def)
qed

subsection \<open>Bounds\<close>

lemma deadline_urgency_cases:
  "deadline_urgency parse now t x
     \<in> {x, fmul x (fl (1 / 10)), fmul x (fl (3 / 10)), fmul x (fl (5 / 10)),
         fmul x (fl (7 / 10)), fmul x (fl (9 / 10))}"
  by (simp add: deadline_urgency_def Let_def split: option.split)

lemma age_factor_cases:
  "(age_factor parse now t x, age_factor parse now t y)
     \<in> {(x, y), (fmul x (fl (95 / 100)), fmul y (fl (95 / 100))),
         (fmul (fmul x (fl (95 / 100))) (fl (90 / 100)),
          fmul (fmul y (fl (95 / 100))) (fl (90 / 100)))}"
  by (simp add: age_factor_def Let_def split: option.split)

lemma deadline_urgency_range:
  assumes "1 \<le> x" and "x \<le> 5"
  shows "8 / 100 \<le> deadline_urgency parse now t x \<and> deadline_urgency parse now t x \<le> 5"
proof -
  have step: "8 / 100 \<le> fmul x (fl q) \<and> fmul x (fl q) \<le> 5"
    if "1 / 10 \<le> q" and "q \<le> 9 / 10" for q
  proof -
    from literal_range [of q] that have c: "9 / 100 \<le> fl q" "fl q \<le> 91 / 100"
      by simp_all
    have "8 / 100 * x \<le> fmul x (fl q)"
      using assms c by (intro fmul_lower) simp_all
    moreover have "fmul x (fl q) \<le> 1 * x"
      using assms c by (intro fmul_upper) simp_all
    ultimately show ?thesis
      using assms by simp
  qed
  show ?thesis
    using deadline_urgency_cases [of parse now t x] step [of "1 / 10"] step [of "3 / 10"]
      step [of "5 / 10"] step [of "7 / 10"] step [of "9 / 10"] assms
    by auto
qed

lemma age_literals:
  "94 / 100 \<le> fl (95 / 100) \<and> fl (95 / 100) \<le> 96 / 100
   \<and> 89 / 100 \<le> fl (90 / 100) \<and> fl (90 / 100) \<le> 91 / 100"
  using literal_range [of "95 / 100"] literal_range [of "90 / 100"] by simp

lemma age_step_range:
  assumes "1 / 1000 \<le> x" and "x \<le> 6" and "89 / 100 \<le> c" and "c \<le> 96 / 100"
  shows "8 / 10 * x \<le> fmul x c \<and> fmul x c \<le> x"
proof -
  have "8 / 10 * x \<le> fmul x c"
    using assms by (intro fmul_lower) simp_all
  moreover have "fmul x c \<le> 1 * x"
    using assms by (intro fmul_upper) simp_all
  ultimately show ?thesis
    by simp
qed

lemma age_factor_gap:
  assumes "1 / 100 \<le> x" and "x + g \<le> y" and "y \<le> 6" and "0 \<le> g"
  shows "64 / 100 * x \<le> age_factor parse now t x \<and> age_factor parse now t y \<le> y
         \<and> (1 / 100 \<le> g \<longrightarrow>
              age_factor parse now t x + 64 / 100 * g \<le> age_factor parse now t y)"
proof -
  let ?a = "fl (95 / 100)" and ?b = "fl (90 / 100)"
  from age_literals have a: "89 / 100 \<le> ?a" "?a \<le> 96 / 100" and b: "89 / 100 \<le> ?b" "?b \<le> 96 / 100"
    by simp_all
  have x1: "8 / 10 * x \<le> fmul x ?a \<and> fmul x ?a \<le> x"
    using assms a by (intro age_step_range) simp_all
  have y1: "8 / 10 * y \<le> fmul y ?a \<and> fmul y ?a \<le> y"
    using assms a by (intro age_step_range) simp_all
  have x2: "8 / 10 * fmul x ?a \<le> fmul (fmul x ?a) ?b \<and> fmul (fmul x ?a) ?b \<le> fmul x ?a"
    using assms b x1 by (intro age_step_range) simp_all
  have y2: "8 / 10 * fmul y ?a \<le> fmul (fmul y ?a) ?b \<and> fmul (fmul y ?a) ?b \<le> fmul y ?a"
    using assms b y1 by (intro age_step_range) simp_all
  have g1: "fmul x ?a + 8 / 10 * g \<le> fmul y ?a" if "1 / 100 \<le> g"
    using assms a that by - (rule fmul_gap, simp_all)
  have g2: "fmul (fmul x ?a) ?b + 8 / 10 * (8 / 10 * g) \<le> fmul (fmul y ?a) ?b" if "1 / 100 \<le> g"
    using assms b x1 y1 g1 [OF that] that by - (rule fmul_gap, simp_all)
  show ?thesis
    using age_factor_cases [of parse now t x y] x1 y1 x2 y2 g1 g2 assms
    by auto
qed

lemma deadline_urgency_overdue:
  assumes "deadline t = Some s" and "s \<noteq> []" and "parse s = Some (Naive d)" and "d < now"
  shows "deadline_urgency parse now t x = fmul x (fl (1 / 10))"
proof -
  have "(of_int (d - now) / 3600000000 :: rat) < 0"
    using assms(4) by (simp add: divide_less_0_iff)
  then show ?thesis
    using assms by (simp add: deadline_urgency_def hours_of_micros_def Let_def)
qed

lemma deadline_urgency_seven_days:
  assumes "deadline t = Some s" and "s \<noteq> []" and "parse s = Some (Naive (now + seven_days))"
  shows "deadline_urgency parse now t x = x"
  using assms by (simp add: deadline_urgency_def hours_of_micros_def Let_def seven_days_def)

lemma overdue_base_range:
  "8 / 100 \<le> fmul (of_int (priority_value p)) (fl (1 / 10))
   \<and> fmul (of_int (priority_value p)) (fl (1 / 10)) \<le> 6 / 10"
proof -
  let ?x = "of_int (priority_value p) :: rat"
  from literal_range [of "1 / 10"] have c: "9 / 100 \<le> fl (1 / 10)" "fl (1 / 10) \<le> 11 / 100"
    by simp_all
  have x: "1 \<le> ?x" "?x \<le> 5"
    by (cases p; simp)+
  have "8 / 100 * ?x \<le> fmul ?x (fl (1 / 10))"
    using x c by (intro fmul_lower) simp_all
  moreover have "fmul ?x (fl (1 / 10)) \<le> 12 / 100 * ?x"
    using x c by (intro fmul_upper) simp_all
  ultimately show ?thesis
    using x by simp
qed

text \<open>
  Claim C8. A task whose deadline parses to a timestamp without UTC offset that is
  strictly in the past (any priority, any age, any status) scores strictly less than the
  same task (same creation time, same status) with priority CRITICAL and a deadline seven
  days in the future.
\<close>

theorem overdue_beats_critical:
  assumes "deadline t = Some s" and "s \<noteq> []" and "parse s = Some (Naive d)" and "d < now"
    and "s7 \<noteq> []" and "parse s7 = Some (Naive (now + seven_days))"
  shows "calculate_score parse now t
           < calculate_score parse now (t\<lparr>priority := CRITICAL, deadline := Some s7\<rparr>)"
proof -
  let ?t7 = "t\<lparr>priority := CRITICAL, deadline := Some s7\<rparr>"
  let ?u = "fmul (of_int (priority_value (priority t))) (fl (1 / 10))"
  let ?x = "age_factor parse now t ?u"
  let ?y = "age_factor parse now t 1"
  have d: "deadline_urgency parse now t (of_int (priority_value (priority t))) = ?u"
    using assms(1-4) by (rule deadline_urgency_overdue)
  have d7: "deadline_urgency parse now ?t7 1 = 1"
    using assms(5,6) by (intro deadline_urgency_seven_days [of _ s7]) simp_all
  have a7: "age_factor parse now ?t7 z = age_factor parse now t z" for z
    by (simp add: age_factor_def)
  have lhs: "calculate_score parse now t = (if status t = BLOCKED then fmul ?x 10 else ?x)"
    by (simp add: calculate_score_def Let_def d)
  have rhs: "calculate_score parse now ?t7 = (if status t = BLOCKED then fmul ?y 10 else ?y)"
    by (simp add: calculate_score_def Let_def d7 a7)
  from overdue_base_range [of "priority t"] have u: "8 / 100 \<le> ?u" "?u + 4 / 10 \<le> 1"
    by simp_all
  from age_factor_gap [of ?u "4 / 10" 1 parse now t] u
  have x: "64 / 100 * ?u \<le> ?x" and y: "?y \<le> 1" and gap: "?x + 64 / 100 * (4 / 10) \<le> ?y"
    by simp_all
  have blocked: "fmul ?x 10 + 8 / 10 * (64 / 100 * (4 / 10)) \<le> fmul ?y 10"
    using u x y gap by - (rule fmul_gap, simp_all)
  show ?thesis
    unfolding lhs rhs using gap blocked by simp
qed

theorem overdue_beats_critical_witness:
  "calculate_score example_parse 86400000000 example_task
     < calculate_score example_parse 86400000000
         (example_task\<lparr>priority := CRITICAL, deadline := Some ''2026-01-09T00:00:00''\<rparr>)"
  using overdue_beats_critical [of example_task "''2026-01-01T00:00:00''" example_parse 0
      86400000000 "''2026-01-09T00:00:00''"]
  by (simp add: example_task_def example_parse_def seven_days_def)

text \<open>
  The claim as the specification words it fails for a deadline in the past that carries a
  UTC offset: the overdue BACKLOG task scores 5, the CRITICAL task with a deadline seven
  days out scores 1.
\<close>

theorem overdue_aware_deadline_counterexample:
  "example_parse ''2026-01-01T00:00:00+00:00'' = Some (Aware 0)
   \<and> example_parse ''2026-01-09T00:00:00'' = Some (Naive (86400000000 + seven_days))
   \<and> calculate_score example_parse 86400000000
        (example_task\<lparr>deadline := Some ''2026-01-01T00:00:00+00:00''\<rparr>) = 5
   \<and> calculate_score example_parse 86400000000
        (example_task\<lparr>deadline := Some ''2026-01-01T00:00:00+00:00'',
                       priority := CRITICAL, deadline := Some ''2026-01-09T00:00:00''\<rparr>) = 1"
  by (simp add: calculate_score_def deadline_urgency_def age_factor_def hours_of_micros_def
      Let_def example_parse_def example_task_def seven_days_def)

text \<open>
  Claim C9. A task with status BLOCKED scores strictly more than five times the score of
  the identical task (same priority, deadline and age) with status PENDING.
\<close>

theorem blocked_penalty_dominates:
  assumes "status t = BLOCKED"
  shows "calculate_score parse now t
           > 5 * calculate_score parse now (t\<lparr>status := PENDING\<rparr>)"
proof -
  let ?p = "of_int (priority_value (priority t)) :: rat"
  let ?d = "deadline_urgency parse now t ?p"
  let ?x = "age_factor parse now t ?d"
  have p: "1 \<le> ?p" "?p \<le> 5"
    by (cases "priority t"; simp)+
  from deadline_urgency_range [OF p, of parse now t] have d: "8 / 100 \<le> ?d" "?d \<le> 5"
    by simp_all
  from age_factor_gap [of ?d 0 ?d parse now t] d have x: "64 / 100 * ?d \<le> ?x" "?x \<le> 5"
    by simp_all
  have pend: "calculate_score parse now (t\<lparr>status := PENDING\<rparr>) = ?x"
    by (simp add: calculate_score_def Let_def deadline_urgency_def age_factor_def)
  have blk: "calculate_score parse now t = fmul ?x 10"
    using assms by (simp add: calculate_score_def Let_def)
  have "9 * ?x \<le> fmul ?x 10"
    using d x by (intro fmul_lower) simp_all
  then show ?thesis
    unfolding pend blk using d x by simp
qed

theorem blocked_penalty_dominates_witness:
  "calculate_score example_parse 86400000000 (example_task\<lparr>status := BLOCKED\<rparr>)
     > 5 * calculate_score example_parse 86400000000
             (example_task\<lparr>status := BLOCKED, status := PENDING\<rparr>)"
  using blocked_penalty_dominates [of "example_task\<lparr>status := BLOCKED\<rparr>" example_parse
      86400000000]
  by simp

section \<open>Properties of the store\<close>

lemma map_of_update_same: "map_of (AList.update k v al) k = Some v"
  by (simp add: update_conv')

lemma map_of_update_other: "k' \<noteq> k \<Longrightarrow> map_of (AList.update k v al) k' = map_of al k'"
  by (simp add: update_conv')

lemma tasks_log_action: "tasks (log_action now_iso act task_id dets s) = tasks s"
  by (simp add: log_action_def)

lemma tasks_fold:
  assumes "\<And>x s. tasks (f x s) = tasks s"
  shows "tasks (fold f xs s) = tasks s"
  by (induction xs arbitrary: s) (simp_all add: assms)

lemma tasks_initialize_agents: "tasks (initialize_agents now_iso s) = tasks s"
  unfolding initialize_agents_def by (rule tasks_fold) simp

lemma tasks_new_queue: "tasks (new_queue now_iso) = []"
  by (simp add: new_queue_def tasks_initialize_agents)

lemma tasks_add:
  "tasks (snd (add new_id now_iso args s)) =
     AList.update new_id
       (if dependencies (new_task (tasks s) new_id now_iso args) \<noteq> []
           \<and> \<not> all_deps_complete (tasks s) (new_task (tasks s) new_id now_iso args)
        then (new_task (tasks s) new_id now_iso args)\<lparr>status := BLOCKED\<rparr>
        else new_task (tasks s) new_id now_iso args)
       (tasks s)"
  by (simp add: add_def Let_def tasks_log_action)

lemma dependencies_fresh:
  "xs \<noteq> [] \<Longrightarrow> a_dependencies args = Some (Fresh xs)
     \<Longrightarrow> dependencies (new_task ts new_id now_iso args) = xs"
  by (simp add: new_task_def given_list_def or_new_list_def)

lemma dependencies_none:
  "a_dependencies args = None \<Longrightarrow> dependencies (new_task ts new_id now_iso args) = []"
  by (simp add: new_task_def given_list_def or_new_list_def)

text \<open>
  Claim C4. For every known task id, \<open>cancel\<close> returns true, sets the status of the task
  to CANCELLED and leaves every agent record unchanged: the branch that would release the
  agent tests the status after it has been overwritten.
\<close>

theorem cancel_leaves_agents:
  assumes "map_of (tasks s) task_id = Some task"
  shows "fst (cancel now_iso task_id reason s) = True
    \<and> map_option status (map_of (tasks (snd (cancel now_iso task_id reason s))) task_id)
        = Some CANCELLED
    \<and> agents (snd (cancel now_iso task_id reason s)) = agents s"
  using assms
  by (simp add: cancel_def Let_def log_action_def map_of_update_same split: option.split)

theorem cancel_leaves_agents_witness:
  "fst (cancel ''2026-01-02T00:00:00'' ''a1b2c3d4'' ''No longer needed'' example_queue) = True
    \<and> map_option status
        (map_of (tasks (snd (cancel ''2026-01-02T00:00:00'' ''a1b2c3d4'' ''No longer needed''
           example_queue))) ''a1b2c3d4'') = Some CANCELLED
    \<and> agents (snd (cancel ''2026-01-02T00:00:00'' ''a1b2c3d4'' ''No longer needed''
         example_queue)) = agents example_queue"
  using cancel_leaves_agents [of example_queue "''a1b2c3d4''"
      "example_task\<lparr>assigned_agent := ''ATLAS''\<rparr>" "''2026-01-02T00:00:00''"
      "''No longer needed''"]
  by (simp add: example_queue_def)

text \<open>
  Claim C10. For every known task id whose \<open>assigned_agent\<close> names a registered agent,
  \<open>complete\<close> marks that agent available, clears its \<open>current_task\<close> and increments
  its \<open>completed_today\<close>, whatever the status of the task was and whatever task the
  agent's \<open>current_task\<close> named.
\<close>

theorem complete_frees_agent:
  assumes "map_of (tasks s) task_id = Some task"
    and "map_of (agents s) (assigned_agent task) = Some agent"
  shows "fst (complete parse now_iso task_id notes_arg s) = True
    \<and> map_of (agents (snd (complete parse now_iso task_id notes_arg s))) (assigned_agent task)
        = Some (agent\<lparr>current_task := None, available := True,
                       completed_today := completed_today agent + 1,
                       last_active := now_iso\<rparr>)"
proof -
  have a: "assigned_agent (completed_task parse now_iso notes_arg task) = assigned_agent task"
    by (simp add: completed_task_def Let_def split: option.split)
  show ?thesis
    using assms
    by (simp add: complete_def Let_def log_action_def map_of_update_same a)
qed

text \<open>
  The instance: the task is PENDING (it was never started) and ATLAS is busy with the
  other task \<open>ffffffff\<close>; ATLAS is released and credited all the same.
\<close>

theorem complete_frees_agent_witness:
  "fst (complete example_parse ''2026-01-02T00:00:00'' ''a1b2c3d4'' [] example_queue) = True
    \<and> map_of (agents (snd (complete example_parse ''2026-01-02T00:00:00'' ''a1b2c3d4'' []
         example_queue))) ''ATLAS''
        = Some (example_agent\<lparr>current_task := None, available := True,
                               completed_today := 1,
                               last_active := ''2026-01-02T00:00:00''\<rparr>)"
  using complete_frees_agent [of example_queue "''a1b2c3d4''"
      "example_task\<lparr>assigned_agent := ''ATLAS''\<rparr>" example_agent example_parse
      "''2026-01-02T00:00:00''" "[]"]
  by (simp add: example_queue_def example_agent_def)

subsection \<open>The pass over the blocked status\<close>

lemma update_blocked_task_completed:
  "status (update_blocked_task ts task) = COMPLETED \<longleftrightarrow> status task = COMPLETED"
  by (simp add: update_blocked_task_def)

lemma update_blocked_task_dependencies:
  "dependencies (update_blocked_task ts task) = dependencies task"
  by (simp add: update_blocked_task_def)

text \<open>The loop body reads the dictionary only through \<open>dep_complete\<close>.\<close>

lemma update_blocked_task_cong:
  assumes "\<And>d. dep_complete ts' d = dep_complete ts d"
  shows "update_blocked_task ts' task = update_blocked_task ts task"
proof -
  have "dep_complete ts' = dep_complete ts"
    using assms by (simp add: fun_eq_iff)
  then show ?thesis
    by (simp add: update_blocked_task_def all_deps_complete_def)
qed

lemma update_blocked_task_idem:
  "update_blocked_task ts (update_blocked_task ts task) = update_blocked_task ts task"
  by (simp add: update_blocked_task_def all_deps_complete_def)

lemma map_of_update_blocked_step:
  "map_of (update_blocked_step a ts) k =
     (if k = a then map_option (update_blocked_task ts) (map_of ts a) else map_of ts k)"
  by (simp add: update_blocked_step_def map_of_update_same map_of_update_other
      split: option.split)

text \<open>
  No iteration makes a task COMPLETED or takes that status away, so the answers of
  \<open>dep_complete\<close> are the same throughout the pass: the order of the iterations does
  not matter.
\<close>

lemma dep_complete_update_blocked_step:
  "dep_complete (update_blocked_step a ts) d = dep_complete ts d"
  by (cases "map_of ts a")
     (auto simp: dep_complete_def map_of_update_blocked_step update_blocked_task_completed)

lemma map_of_update_blocked_loop:
  "map_of (update_blocked_loop ks ts) k =
     (if k \<in> set ks then map_option (update_blocked_task ts) (map_of ts k) else map_of ts k)"
proof (induction ks arbitrary: ts)
  case Nil
  show ?case by simp
next
  case (Cons a ks)
  have cong: "update_blocked_task (update_blocked_step a ts) = update_blocked_task ts"
    by (rule ext) (rule update_blocked_task_cong, rule dep_complete_update_blocked_step)
  show ?case
    unfolding update_blocked_loop.simps Cons.IH cong
    by (cases "map_of ts a")
       (auto simp: map_of_update_blocked_step update_blocked_task_idem)
qed

lemma map_of_update_blocked_status:
  "map_of (update_blocked_status ts) k = map_option (update_blocked_task ts) (map_of ts k)"
proof (cases "map_of ts k")
  case None
  then show ?thesis
    by (simp add: update_blocked_status_def map_of_update_blocked_loop)
next
  case (Some t)
  then have "k \<in> set (map fst ts)"
    by (metis map_of_eq_None_iff option.distinct(1) set_map)
  then show ?thesis
    by (simp add: update_blocked_status_def map_of_update_blocked_loop)
qed

lemma dep_complete_update_blocked_status:
  "dep_complete (update_blocked_status ts) d = dep_complete ts d"
  by (cases "map_of ts d")
     (simp_all add: dep_complete_def map_of_update_blocked_status update_blocked_task_completed)

lemma update_blocked_loop_fixed:
  assumes "\<And>k task. map_of ts k = Some task \<Longrightarrow> update_blocked_task ts task = task"
  shows "update_blocked_loop ks ts = ts"
proof (induction ks)
  case Nil
  show ?case by simp
next
  case (Cons a ks)
  have "update_blocked_step a ts = ts"
    by (cases "map_of ts a") (simp_all add: update_blocked_step_def assms update_triv)
  then show ?case
    by (simp only: update_blocked_loop.simps Cons.IH)
qed

lemma update_blocked_status_fixed:
  "update_blocked_status (update_blocked_status ts) = update_blocked_status ts"
proof -
  have fixed: "update_blocked_task (update_blocked_status ts) task = task"
    if "map_of (update_blocked_status ts) k = Some task" for k task
  proof -
    from that obtain t0 where "map_of ts k = Some t0" and t: "task = update_blocked_task ts t0"
      by (auto simp: map_of_update_blocked_status)
    have "update_blocked_task (update_blocked_status ts) task = update_blocked_task ts task"
      by (rule update_blocked_task_cong) (rule dep_complete_update_blocked_status)
    then show ?thesis
      by (simp add: t update_blocked_task_idem)
  qed
  show ?thesis
    unfolding update_blocked_status_def [of "update_blocked_status ts"]
    by (rule update_blocked_loop_fixed) (rule fixed)
qed

text \<open>
  Claim C6. Running \<open>_update_blocked_status\<close> twice in a row gives every task the status
  one run gives it: the second pass changes nothing (the whole dictionary is the same).
\<close>

theorem update_blocked_status_idempotent:
  "update_blocked_status (update_blocked_status ts) = update_blocked_status ts
   \<and> (\<forall>task_id.
        map_option status (map_of (update_blocked_status (update_blocked_status ts)) task_id)
          = map_option status (map_of (update_blocked_status ts) task_id))"
proof -
  have "update_blocked_status (update_blocked_status ts) = update_blocked_status ts"
    by (rule update_blocked_status_fixed)
  then show ?thesis
    by simp
qed

text \<open>
  Claim C7. A task that is not COMPLETED, CANCELLED, FAILED or IN_PROGRESS and whose
  dependency list names an id that is not in the task set has status BLOCKED after every
  pass of \<open>_update_blocked_status\<close> (after one pass and after any number of further
  ones); the missing id counts as not complete, and the pass is a total function.
\<close>

theorem dangling_dependency_blocks:
  assumes "map_of ts d = Some task"
    and "status task \<noteq> COMPLETED" and "status task \<noteq> CANCELLED"
    and "status task \<noteq> FAILED" and "status task \<noteq> IN_PROGRESS"
    and "x \<in> set (dependencies task)" and "map_of ts x = None"
  shows "map_of ((update_blocked_status ^^ Suc n) ts) d = Some (task\<lparr>status := BLOCKED\<rparr>)"
proof -
  have pow: "(update_blocked_status ^^ Suc n) ts = update_blocked_status ts" for n
    by (induction n) (simp_all add: update_blocked_status_fixed)
  have "\<not> dep_complete ts x"
    using assms(7) by (simp add: dep_complete_def)
  then have "\<not> all_deps_complete ts task"
    using assms(6) by (auto simp: all_deps_complete_def list_all_iff)
  moreover have "dependencies task \<noteq> []"
    using assms(6) by auto
  ultimately have "update_blocked_task ts task = task\<lparr>status := BLOCKED\<rparr>"
    using assms(2-5) by (simp add: update_blocked_task_def)
  then show ?thesis
    using assms(1) by (simp only: pow map_of_update_blocked_status option.map)
qed

theorem dangling_dependency_blocks_witness:
  "map_of ((update_blocked_status ^^ Suc 1) (tasks example_queue)) ''main0001''
     = Some (example_task\<lparr>ident := ''main0001'', dependencies := [''gone0000''],
                           dependencies_obj := 1, status := BLOCKED\<rparr>)"
  using dangling_dependency_blocks [of "tasks example_queue" "''main0001''"
      "example_task\<lparr>ident := ''main0001'', dependencies := [''gone0000''],
                    dependencies_obj := 1\<rparr>"
      "''gone0000''" 1]
  by (simp add: example_queue_def example_task_def)

text \<open>
  \<open>delete\<close> removes the task and touches no other entry: a task that depended on the
  deleted id keeps it in its dependency list, is left with a dangling reference, and the
  next pass blocks it.
\<close>

lemma delete_leaves_dependent_blocked:
  assumes "map_of (tasks s) b = Some tb" and "d \<noteq> b" and "map_of (tasks s) d = Some task"
    and "status task \<noteq> COMPLETED" and "status task \<noteq> CANCELLED"
    and "status task \<noteq> FAILED" and "status task \<noteq> IN_PROGRESS"
    and "b \<in> set (dependencies task)"
  shows "map_of (update_blocked_status (tasks (snd (delete now_iso b s)))) d
           = Some (task\<lparr>status := BLOCKED\<rparr>)"
proof -
  have ts: "tasks (snd (delete now_iso b s)) = AList.delete b (tasks s)"
    using assms(1) by (simp add: delete_def Let_def log_action_def)
  have 1: "map_of (AList.delete b (tasks s)) d = Some task"
    using assms(2,3) by simp
  have 2: "map_of (AList.delete b (tasks s)) b = None"
    by (simp add: delete_conv')
  have "\<not> dep_complete (AList.delete b (tasks s)) b"
    using 2 by (simp add: dep_complete_def)
  then have "\<not> all_deps_complete (AList.delete b (tasks s)) task"
    using assms(8) by (auto simp: all_deps_complete_def list_all_iff)
  moreover have "dependencies task \<noteq> []"
    using assms(8) by auto
  ultimately have "update_blocked_task (AList.delete b (tasks s)) task = task\<lparr>status := BLOCKED\<rparr>"
    using assms(4-7) by (simp add: update_blocked_task_def)
  then show ?thesis
    using 1 by (simp only: ts map_of_update_blocked_status option.map)
qed

subsection \<open>Selection of the next task\<close>







text \<open>
  The store \<open>example_tie_queue\<close> holds, in this order, \<open>example_crit\<close>, due in 48 hours
  (float score 0.9), \<open>example_med\<close>, due in 30 minutes (float score 0.8999999999999999), and
  an overdue task assigned to ATLAS (score 0.5). For FORGE the ATLAS task is filtered
  out, two candidates are sorted, and the MEDIUM task is returned although the CRITICAL
  one comes first in the dictionary: in exact arithmetic the two scores would tie.
\<close>

lemma float_products:
  "fmul 5 (fl (1 / 10)) = 1 / 2
   \<and> fmul 1 (fl (9 / 10)) = 8106479329266893 / 9007199254740992
   \<and> fmul 3 (fl (3 / 10)) = 2026619832316723 / 2251799813685248"
  by code_simp




lemma get_next_no_agent_example:
  "fst (get_next example_parse 86400000000 None example_queue)
     = Some (example_task\<lparr>assigned_agent := ''ATLAS''\<rparr>)"
  by (simp add: get_next_def Let_def update_blocked_status_def update_blocked_step_def
      update_blocked_task_def all_deps_complete_def dep_complete_def example_queue_def
      example_task_def calculate_score_def deadline_urgency_def age_factor_def
      hours_of_micros_def example_parse_def float_products)

text \<open>A given agent restricts the candidates: FORGE gets the task open to any agent.\<close>

lemma get_next_forge_example:
  "fst (get_next example_parse 86400000000 (Some ''FORGE'') example_queue)
     = Some (example_task\<lparr>ident := ''any00001'', deadline := None, dependencies_obj := 2\<rparr>)"
  by (simp add: get_next_def Let_def update_blocked_status_def update_blocked_step_def
      update_blocked_task_def all_deps_complete_def dep_complete_def example_queue_def
      example_task_def)

subsection \<open>Cycle detection\<close>

lemma explored_refl: "explored ts task_id visited visited"
  by (simp add: explored_def)

lemma explored_trans:
  "explored ts task_id v0 v1 \<Longrightarrow> explored ts task_id v1 v2 \<Longrightarrow> explored ts task_id v0 v2"
  unfolding explored_def by blast

lemma dfs_false_explored:
  "dfs depth ts task_id current visited = Inr (False, visited1)
     \<Longrightarrow> explored ts task_id visited visited1 \<and> current \<in> visited1"
  "dfs_deps depth ts task_id deps visited = Inr (False, visited1)
     \<Longrightarrow> explored ts task_id visited visited1 \<and> set deps \<subseteq> visited1"
proof (induction depth ts task_id current visited and depth ts task_id deps visited
    arbitrary: visited1 and visited1 rule: dfs_dfs_deps.induct)
  case (1 ts task_id current visited)
  then show ?case by simp
next
  case (2 depth ts task_id current visited)
  show ?case
  proof (cases "current \<in> visited")
    case True
    with "2.prems" show ?thesis
      by (auto simp: explored_refl split: if_splits)
  next
    case False
    from "2.prems" have ne: "current \<noteq> task_id"
      by (auto split: if_splits)
    show ?thesis
    proof (cases "map_of ts current")
      case None
      with "2.prems" False ne have "visited1 = insert current visited"
        by simp
      then show ?thesis
        using None ne by (auto simp: explored_def)
    next
      case (Some task)
      with "2.prems" False ne
      have r: "dfs_deps depth ts task_id (dependencies task) (insert current visited)
                 = Inr (False, visited1)"
        by simp
      from "2.IH" [OF ne False Some r]
      have e: "explored ts task_id (insert current visited) visited1"
        and d: "set (dependencies task) \<subseteq> visited1"
        by simp_all
      from e have "current \<in> visited1"
        by (auto simp: explored_def)
      moreover have "explored ts task_id visited visited1"
        unfolding explored_def
      proof (intro conjI ballI allI impI)
        show "visited \<subseteq> visited1"
          using e by (auto simp: explored_def)
      next
        fix x assume "x \<in> visited1 - visited"
        then show "x \<noteq> task_id"
          using e ne by (cases "x = current") (auto simp: explored_def)
      next
        fix x task' assume x: "x \<in> visited1 - visited" and t: "map_of ts x = Some task'"
        show "set (dependencies task') \<subseteq> visited1"
        proof (cases "x = current")
          case True
          with t Some d show ?thesis by simp
        next
          case False
          with x e t show ?thesis
            unfolding explored_def by blast
        qed
      qed
      ultimately show ?thesis by simp
    qed
  qed
next
  case (3 depth ts task_id visited)
  then show ?case
    by (simp add: explored_refl)
next
  case (4 depth ts task_id dep deps visited)
  from "4.prems" obtain found v1 where r1: "dfs depth ts task_id dep visited = Inr (found, v1)"
    by (auto split: sum.splits)
  with "4.prems" have nf: "\<not> found"
    and r2: "dfs_deps depth ts task_id deps v1 = Inr (False, visited1)"
    by (auto split: if_splits)
  from r1 nf have r1': "dfs depth ts task_id dep visited = Inr (False, v1)"
    by simp
  from "4.IH"(1) [OF r1'] have e1: "explored ts task_id visited v1" and m1: "dep \<in> v1"
    by simp_all
  from "4.IH"(2) [OF r1 refl nf r2]
  have e2: "explored ts task_id v1 visited1" and m2: "set deps \<subseteq> visited1"
    by simp_all
  have "v1 \<subseteq> visited1"
    using e2 by (simp add: explored_def)
  then show ?case
    using explored_trans [OF e1 e2] m1 m2 by auto
qed

lemma dfs_true_path:
  "dfs depth ts task_id current visited = Inr (True, visited1)
     \<Longrightarrow> depends_path ts current task_id"
  "dfs_deps depth ts task_id deps visited = Inr (True, visited1)
     \<Longrightarrow> \<exists>d\<in>set deps. depends_path ts d task_id"
proof (induction depth ts task_id current visited and depth ts task_id deps visited
    arbitrary: visited1 and visited1 rule: dfs_dfs_deps.induct)
  case (1 ts task_id current visited)
  then show ?case by simp
next
  case (2 depth ts task_id current visited)
  show ?case
  proof (cases "current = task_id")
    case True
    then show ?thesis by (simp add: depends_path.here)
  next
    case False
    with "2.prems" have nv: "current \<notin> visited"
      by (auto split: if_splits)
    with "2.prems" False obtain task where t: "map_of ts current = Some task"
      and r: "dfs_deps depth ts task_id (dependencies task) (insert current visited)
                = Inr (True, visited1)"
      by (auto split: option.splits)
    from "2.IH" [OF False nv t r] obtain d where "d \<in> set (dependencies task)"
      and "depends_path ts d task_id"
      by blast
    with t show ?thesis
      by (rule depends_path.edge)
  qed
next
  case (3 depth ts task_id visited)
  then show ?case by simp
next
  case (4 depth ts task_id dep deps visited)
  from "4.prems" obtain found v1 where r1: "dfs depth ts task_id dep visited = Inr (found, v1)"
    by (auto split: sum.splits)
  show ?case
  proof (cases found)
    case True
    with r1 "4.IH"(1) have "depends_path ts dep task_id"
      by simp
    then show ?thesis by auto
  next
    case False
    with r1 "4.prems" have r2: "dfs_deps depth ts task_id deps v1 = Inr (True, visited1)"
      by simp
    from "4.IH"(2) [OF r1 refl False r2] show ?thesis
      by auto
  qed
qed

lemma explored_closed:
  assumes "explored ts task_id {} visited1" and "depends_path ts a b" and "a \<in> visited1"
  shows "b \<in> visited1"
  using assms(2,3)
proof (induction rule: depends_path.induct)
  case (here a)
  then show ?case .
next
  case (edge a task d b)
  from assms(1) edge.hyps(1,2) edge.prems have "d \<in> visited1"
    unfolding explored_def by blast
  then show ?case
    by (rule edge.IH)
qed

text \<open>
  When the search returns, its answer is right: true exactly when \<open>task_id\<close> can be
  reached from \<open>new_dep\<close> along the dependency lists.
\<close>

lemma would_create_cycle_iff:
  assumes "would_create_cycle depth ts task_id new_dep = Inr found"
  shows "found \<longleftrightarrow> depends_path ts new_dep task_id"
proof -
  from assms obtain v where r: "dfs depth ts task_id new_dep {} = Inr (found, v)"
    unfolding would_create_cycle_def by (auto split: sum.splits)
  show ?thesis
  proof
    assume found
    with r show "depends_path ts new_dep task_id"
      by (auto dest: dfs_true_path(1))
  next
    assume p: "depends_path ts new_dep task_id"
    show found
    proof (rule ccontr)
      assume "\<not> found"
      with r have r': "dfs depth ts task_id new_dep {} = Inr (False, v)"
        by simp
      from dfs_false_explored(1) [OF r'] have e: "explored ts task_id {} v" and m: "new_dep \<in> v"
        by simp_all
      from explored_closed [OF e p m] have "task_id \<in> v" .
      with e show False
        unfolding explored_def by blast
    qed
  qed
qed

text \<open>
  The search returns when the limit leaves more nested calls than there are tasks: a call
  that goes on to its dependencies has added a new key of the dictionary to \<open>visited\<close>.
\<close>

lemma dfs_visited_mono:
  "dfs depth ts task_id current visited = Inr (found, visited1) \<Longrightarrow> visited \<subseteq> visited1"
  "dfs_deps depth ts task_id deps visited = Inr (found, visited1) \<Longrightarrow> visited \<subseteq> visited1"
proof (induction depth ts task_id current visited and depth ts task_id deps visited
    arbitrary: found visited1 and found visited1 rule: dfs_dfs_deps.induct)
  case (1 ts task_id current visited)
  then show ?case by simp
next
  case (2 depth ts task_id current visited)
  then show ?case
    by (auto split: if_splits option.splits)
next
  case (3 depth ts task_id visited)
  then show ?case by simp
next
  case (4 depth ts task_id dep deps visited)
  from "4.prems" obtain f1 v1 where r1: "dfs depth ts task_id dep visited = Inr (f1, v1)"
    by (auto split: sum.splits)
  from "4.IH"(1) [OF r1] have s1: "visited \<subseteq> v1" .
  show ?case
  proof (cases f1)
    case True
    with r1 "4.prems" s1 show ?thesis by simp
  next
    case False
    with r1 "4.prems" have r2: "dfs_deps depth ts task_id deps v1 = Inr (found, visited1)"
      by simp
    from "4.IH"(2) [OF r1 refl False r2] s1 show ?thesis
      by blast
  qed
qed

lemma dfs_returns:
  "card (fst ` set ts - visited) < depth \<Longrightarrow> \<exists>r. dfs depth ts task_id current visited = Inr r"
  "card (fst ` set ts - visited) < depth \<Longrightarrow> \<exists>r. dfs_deps depth ts task_id deps visited = Inr r"
proof (induction depth ts task_id current visited and depth ts task_id deps visited
    rule: dfs_dfs_deps.induct)
  case (1 ts task_id current visited)
  then show ?case by simp
next
  case (2 depth ts task_id current visited)
  show ?case
  proof (cases "current \<noteq> task_id \<and> current \<notin> visited \<and> map_of ts current \<noteq> None")
    case False
    then show ?thesis by auto
  next
    case True
    then obtain task where ne: "current \<noteq> task_id" and nv: "current \<notin> visited"
      and t: "map_of ts current = Some task"
      by auto
    from t nv have "current \<in> fst ` set ts - visited"
      by (metis DiffI map_of_eq_None_iff option.distinct(1))
    then have "card (fst ` set ts - insert current visited) < card (fst ` set ts - visited)"
      by (metis Diff_insert card_Diff1_less finite_Diff finite_imageI finite_set)
    with "2.prems" have "card (fst ` set ts - insert current visited) < depth"
      by simp
    from "2.IH" [OF ne nv t this] show ?thesis
      using ne nv t by auto
  qed
next
  case (3 depth ts task_id visited)
  show ?case by (simp del: ex_simps) blast
next
  case (4 depth ts task_id dep deps visited)
  from "4.IH"(1) [OF "4.prems"] obtain found v1 where
    r1: "dfs depth ts task_id dep visited = Inr (found, v1)"
    by (cases) auto
  show ?case
  proof (cases found)
    case True
    with r1 show ?thesis by auto
  next
    case False
    from dfs_visited_mono(1) [OF r1] have "fst ` set ts - v1 \<subseteq> fst ` set ts - visited"
      by blast
    then have "card (fst ` set ts - v1) \<le> card (fst ` set ts - visited)"
      by (intro card_mono) simp_all
    with "4.prems" have "card (fst ` set ts - v1) < depth"
      by simp
    from "4.IH"(2) [OF r1 refl False this] show ?thesis
      using r1 False by auto
  qed
qed

lemma would_create_cycle_returns:
  assumes "length ts < depth"
  shows "\<exists>found. would_create_cycle depth ts task_id new_dep = Inr found"
proof -
  have "card (fst ` set ts - {}) \<le> length ts"
    by (metis Diff_empty card_image_le card_length finite_set le_trans)
  with assms have "card (fst ` set ts - {}) < depth"
    by simp
  from dfs_returns(1) [OF this] obtain r where "dfs depth ts task_id new_dep {} = Inr r"
    by blast
  then show ?thesis
    by (cases r) (simp add: would_create_cycle_def)
qed

text \<open>
  The chain of the example run: every task is in the store, the task of step \<open>i + 1\<close>
  depends on the task of step \<open>i\<close>, and the first task can be reached from each of them.
\<close>

lemma chain_id_eq: "chain_id i = chain_id j \<longleftrightarrow> i = j"
  by (auto simp: chain_id_def dest: arg_cong [where f = length])

lemma chain_tasks:
  "i \<le> n \<Longrightarrow> \<exists>t. map_of (tasks (chain_run n)) (chain_id i) = Some t
     \<and> dependencies t = (if i = 0 then [] else [chain_id (i - 1)])"
proof (induction n)
  case 0
  then show ?case
    by (simp add: tasks_add tasks_new_queue map_of_update_same dependencies_none chain_args_def)
next
  case (Suc n)
  show ?case
  proof (cases "i = Suc n")
    case True
    have d: "dependencies (new_task ts (chain_id (Suc n)) now_iso (chain_args (Suc n)))
               = [chain_id n]" for ts now_iso
      by (rule dependencies_fresh [where xs = "[chain_id n]"]) (simp_all add: chain_args_def)
    show ?thesis
      by (simp add: True tasks_add map_of_update_same d)
  next
    case False
    with Suc.prems have "i \<le> n" by simp
    from Suc.IH [OF this] show ?thesis
      using False by (simp add: tasks_add map_of_update_other chain_id_eq)
  qed
qed

lemma reachable_chain_run: "reachable parse (chain_run n)"
proof (induction n)
  case 0
  have "reachable parse (apply_operation parse ''2026-01-01T00:00:00''
      (Add (chain_id 0) (chain_args 0)) (new_queue ''2026-01-01T00:00:00''))"
    by (rule reachable.mutate) (rule reachable.fresh)
  then show ?case by simp
next
  case (Suc n)
  then have "reachable parse (apply_operation parse ''2026-01-01T00:00:00''
      (Add (chain_id (Suc n)) (chain_args (Suc n))) (chain_run n))"
    by (rule reachable.mutate)
  then show ?case by simp
qed

lemma chain_path:
  "i \<le> n \<Longrightarrow> depends_path (tasks (chain_run n)) (chain_id i) (chain_id 0)"
proof (induction i)
  case 0
  show ?case by (rule depends_path.here)
next
  case (Suc i)
  from chain_tasks [OF Suc.prems] obtain t where
    t: "map_of (tasks (chain_run n)) (chain_id (Suc i)) = Some t"
    and d: "dependencies t = [chain_id i]"
    by auto
  have m: "chain_id i \<in> set (dependencies t)"
    by (simp add: d)
  from Suc have "depends_path (tasks (chain_run n)) (chain_id i) (chain_id 0)"
    by simp
  with t m show ?case
    by (rule depends_path.edge)
qed

text \<open>
  The search from the last task of the chain towards the first descends one call per
  task: when the limit allows no more nested calls than the chain has edges, it raises.
\<close>

lemma chain_dfs_error:
  "d \<le> i \<Longrightarrow> i \<le> n \<Longrightarrow> \<forall>j\<le>i. chain_id j \<notin> visited
     \<Longrightarrow> dfs d (tasks (chain_run n)) (chain_id 0) (chain_id i) visited = Inl RecursionError"
proof (induction d arbitrary: i visited)
  case 0
  show ?case by simp
next
  case (Suc d)
  from Suc.prems(1) obtain i' where i: "i = Suc i'"
    by (cases i) simp_all
  from chain_tasks [OF Suc.prems(2)] i obtain t where
    t: "map_of (tasks (chain_run n)) (chain_id i) = Some t"
    and dt: "dependencies t = [chain_id i']"
    by auto
  have nv: "chain_id i \<notin> visited"
    using Suc.prems(3) by simp
  have "\<forall>j\<le>i'. chain_id j \<notin> insert (chain_id i) visited"
    using Suc.prems(3) i by (auto simp: chain_id_eq)
  with Suc.IH [of i' "insert (chain_id i) visited"] Suc.prems(1,2) i
  have "dfs d (tasks (chain_run n)) (chain_id 0) (chain_id i') (insert (chain_id i) visited)
          = Inl RecursionError"
    by simp
  then show ?case
    using t dt nv i by (simp add: chain_id_eq)
qed

lemma chain_recursion_error:
  assumes "d \<le> n"
  shows "add_dependency d now_iso (chain_id 0) (chain_id n) (chain_run n) = Inl RecursionError"
proof -
  from chain_tasks [of 0 n] obtain t0 where t0: "map_of (tasks (chain_run n)) (chain_id 0) = Some t0"
    by auto
  from chain_tasks [of n n] obtain tn where tn: "map_of (tasks (chain_run n)) (chain_id n) = Some tn"
    by auto
  have "dfs d (tasks (chain_run n)) (chain_id 0) (chain_id n) {} = Inl RecursionError"
    using assms by (intro chain_dfs_error) simp_all
  then show ?thesis
    using t0 tn by (simp add: add_dependency_def would_create_cycle_def)
qed

text \<open>
  Claim C5. For two existing tasks where \<open>task_id\<close> is reachable from \<open>depends_on\<close>
  along existing dependency edges (for instance when A depends on B and
  \<open>add_dependency(B, A)\<close> is attempted), \<open>add_dependency\<close> never changes the store and
  never returns true: it returns false with the store unchanged whenever the search
  returns, which it does when the recursion limit leaves more nested calls than the store
  has tasks; otherwise it may raise \<open>RecursionError\<close>.
\<close>

theorem add_dependency_rejects_cycle:
  assumes "map_of (tasks s) task_id = Some task"
    and "map_of (tasks s) depends_on = Some dep_task"
    and "depends_path (tasks s) depends_on task_id"
  shows "(length (tasks s) < depth \<longrightarrow>
            add_dependency depth now_iso task_id depends_on s = Inr (False, s))
    \<and> (add_dependency depth now_iso task_id depends_on s = Inr (False, s)
       \<or> add_dependency depth now_iso task_id depends_on s = Inl RecursionError)"
proof (cases "would_create_cycle depth (tasks s) task_id depends_on")
  case (Inl e)
  have "e = RecursionError"
    by (cases e) simp
  with Inl assms(1,2) have "add_dependency depth now_iso task_id depends_on s = Inl RecursionError"
    by (simp add: add_dependency_def)
  moreover have "\<not> length (tasks s) < depth"
    using would_create_cycle_returns [of "tasks s" depth task_id depends_on] Inl by auto
  ultimately show ?thesis
    by simp
next
  case (Inr found)
  from would_create_cycle_iff [OF Inr] assms(3) have found
    by simp
  with Inr assms(1,2) show ?thesis
    by (simp add: add_dependency_def)
qed

text \<open>\<open>main0002\<close> depends on \<open>dep00001\<close>; the reverse edge is refused.\<close>

theorem add_dependency_rejects_cycle_witness:
  "add_dependency 997 ''2026-01-02T00:00:00'' ''dep00001'' ''main0002'' example_chain
     = Inr (False, example_chain)"
proof -
  have p: "depends_path (tasks example_chain) ''main0002'' ''dep00001''"
    by (rule depends_path.edge [where d = "''dep00001''"
          and task = "example_task\<lparr>ident := ''main0002'', status := BLOCKED,
                                    dependencies := [''dep00001''],
                                    dependencies_obj := 1\<rparr>"])
       (simp_all add: example_chain_def depends_path.here)
  have l: "length (tasks example_chain) < 997"
    by (simp add: example_chain_def)
  from add_dependency_rejects_cycle [of example_chain "''dep00001''"
        "example_task\<lparr>ident := ''dep00001''\<rparr>" "''main0002''"
        "example_task\<lparr>ident := ''main0002'', status := BLOCKED,
                      dependencies := [''dep00001''], dependencies_obj := 1\<rparr>"
        997 "''2026-01-02T00:00:00''"] p
  have "length (tasks example_chain) < 997 \<longrightarrow>
      add_dependency 997 ''2026-01-02T00:00:00'' ''dep00001'' ''main0002'' example_chain
        = Inr (False, example_chain)"
    by (simp add: example_chain_def)
  with l show ?thesis
    by (rule rev_mp)
qed

text \<open>
  The claim and the docstring of \<open>add_dependency\<close> (false if the task is not found or
  the dependency is circular) fail on a long chain. After one \<open>add\<close> and 1000 further
  ones, each with the task added before as its dependency, the last task depends on the
  first through 1000 edges; \<open>add_dependency(first, last)\<close> would close the cycle, and
  raises \<open>RecursionError\<close> instead of returning false.
\<close>

theorem add_dependency_recursion_error:
  "reachable example_parse (chain_run 1000)
   \<and> map_of (tasks (chain_run 1000)) (chain_id 0) \<noteq> None
   \<and> map_of (tasks (chain_run 1000)) (chain_id 1000) \<noteq> None
   \<and> depends_path (tasks (chain_run 1000)) (chain_id 1000) (chain_id 0)
   \<and> add_dependency 997 ''2026-01-02T00:00:00'' (chain_id 0) (chain_id 1000) (chain_run 1000)
       = Inl RecursionError"
proof -
  from chain_tasks [of 0 1000] have "map_of (tasks (chain_run 1000)) (chain_id 0) \<noteq> None"
    by auto
  moreover from chain_tasks [of 1000 1000]
  have "map_of (tasks (chain_run 1000)) (chain_id 1000) \<noteq> None"
    by auto
  moreover have "depends_path (tasks (chain_run 1000)) (chain_id 1000) (chain_id 0)"
    by (rule chain_path) simp
  moreover have "add_dependency 997 ''2026-01-02T00:00:00'' (chain_id 0) (chain_id 1000)
      (chain_run 1000) = Inl RecursionError"
    by (rule chain_recursion_error) simp
  ultimately show ?thesis
    using reachable_chain_run [of example_parse 1000] by blast
qed

lemma would_create_cycle_example:
  "would_create_cycle 997 (tasks example_chain) ''dep00001'' ''main0002'' = Inr True"
  by (simp add: would_create_cycle_def example_chain_def eval_nat_numeral)

lemma add_dependency_accepts_example:
  "map_sum id fst (add_dependency 997 ''2026-01-02T00:00:00'' ''main0002'' ''dep00001''
     example_chain) = Inr True"
  by (simp add: add_dependency_def would_create_cycle_def example_chain_def example_task_def
      Let_def log_action_def eval_nat_numeral)

subsection \<open>Which operations unblock\<close>

lemma all_deps_complete_mono:
  assumes "\<And>d. dep_complete ts' d \<Longrightarrow> dep_complete ts d"
    and "all_deps_complete ts' task"
  shows "all_deps_complete ts task"
  using assms by (auto simp: all_deps_complete_def list_all_iff)

lemma all_deps_complete_cong:
  assumes "\<And>d. dep_complete ts' d = dep_complete ts d"
  shows "all_deps_complete ts' task = all_deps_complete ts task"
proof -
  have "dep_complete ts' = dep_complete ts"
    using assms by (simp add: fun_eq_iff)
  then show ?thesis by (simp add: all_deps_complete_def)
qed

lemma all_deps_complete_same_deps:
  "dependencies t' = dependencies t \<Longrightarrow> all_deps_complete ts t' = all_deps_complete ts t"
  by (simp add: all_deps_complete_def)

lemma blocked_consistent_update_blocked_status:
  "blocked_consistent (update_blocked_status ts)"
  unfolding blocked_consistent_def
proof (intro allI impI)
  fix k task
  assume m: "map_of (update_blocked_status ts) k = Some task" and b: "status task = BLOCKED"
  from m obtain t0 where t0: "map_of ts k = Some t0" and t: "task = update_blocked_task ts t0"
    by (auto simp: map_of_update_blocked_status)
  from b t have "dependencies t0 \<noteq> [] \<and> \<not> all_deps_complete ts t0"
    by (auto simp: update_blocked_task_def split: if_splits)
  moreover have "all_deps_complete (update_blocked_status ts) task = all_deps_complete ts task"
    by (rule all_deps_complete_cong) (rule dep_complete_update_blocked_status)
  moreover have "all_deps_complete ts task = all_deps_complete ts t0"
    by (rule all_deps_complete_same_deps) (simp add: t update_blocked_task_dependencies)
  ultimately show "dependencies task \<noteq> [] \<and> \<not> all_deps_complete (update_blocked_status ts) task"
    by (simp add: t update_blocked_task_dependencies)
qed

lemma dep_complete_update_not_completed:
  assumes "status t' \<noteq> COMPLETED" and "dep_complete (AList.update k t' ts) d"
  shows "dep_complete ts d"
  using assms by (cases "d = k") (auto simp: dep_complete_def map_of_update_same map_of_update_other)

lemma blocked_consistent_update:
  assumes "blocked_consistent ts" and "status t' \<noteq> COMPLETED"
    and "status t' = BLOCKED \<Longrightarrow> dependencies t' \<noteq> [] \<and> \<not> all_deps_complete ts t'"
  shows "blocked_consistent (AList.update k t' ts)"
  unfolding blocked_consistent_def
proof (intro allI impI)
  fix k' task
  assume m: "map_of (AList.update k t' ts) k' = Some task" and b: "status task = BLOCKED"
  have old: "dependencies task \<noteq> [] \<and> \<not> all_deps_complete ts task"
  proof (cases "k' = k")
    case True
    with m have "task = t'" by (simp add: map_of_update_same)
    with b assms(3) show ?thesis by simp
  next
    case False
    with m have "map_of ts k' = Some task" by (simp add: map_of_update_other)
    with b assms(1) show ?thesis by (simp add: blocked_consistent_def)
  qed
  have "\<not> all_deps_complete (AList.update k t' ts) task"
    using old all_deps_complete_mono [of "AList.update k t' ts" ts task]
      dep_complete_update_not_completed [OF assms(2)] by blast
  with old show "dependencies task \<noteq> [] \<and> \<not> all_deps_complete (AList.update k t' ts) task"
    by simp
qed

lemma dep_complete_update_same_status:
  assumes "map_of ts k = Some t" and "status t' = status t"
  shows "dep_complete (AList.update k t' ts) d = dep_complete ts d"
  using assms by (cases "d = k") (auto simp: dep_complete_def map_of_update_same map_of_update_other)

lemma blocked_consistent_update_fields:
  assumes "blocked_consistent ts" and "map_of ts k = Some t"
    and "status t' = status t" and "dependencies t' = dependencies t"
  shows "blocked_consistent (AList.update k t' ts)"
  unfolding blocked_consistent_def
proof (intro allI impI)
  fix k' task
  assume m: "map_of (AList.update k t' ts) k' = Some task" and b: "status task = BLOCKED"
  have c: "all_deps_complete (AList.update k t' ts) x = all_deps_complete ts x" for x
    by (rule all_deps_complete_cong) (rule dep_complete_update_same_status [OF assms(2,3)])
  show "dependencies task \<noteq> [] \<and> \<not> all_deps_complete (AList.update k t' ts) task"
  proof (cases "k' = k")
    case True
    with m have tt: "task = t'" by (simp add: map_of_update_same)
    from assms(1,2) b tt assms(3) have "dependencies t \<noteq> [] \<and> \<not> all_deps_complete ts t"
      by (simp add: blocked_consistent_def)
    moreover have "all_deps_complete ts t' = all_deps_complete ts t"
      by (rule all_deps_complete_same_deps) (rule assms(4))
    ultimately show ?thesis
      by (simp only: c tt assms(4)) simp
  next
    case False
    with m have "map_of ts k' = Some task" by (simp add: map_of_update_other)
    with b assms(1) show ?thesis by (simp add: blocked_consistent_def c)
  qed
qed

lemma blocked_consistent_delete:
  assumes "blocked_consistent ts"
  shows "blocked_consistent (AList.delete k ts)"
  unfolding blocked_consistent_def
proof (intro allI impI)
  fix k' task
  assume m: "map_of (AList.delete k ts) k' = Some task" and b: "status task = BLOCKED"
  from m have "map_of ts k' = Some task"
    by (cases "k' = k") (simp_all add: delete_conv')
  with b assms have old: "dependencies task \<noteq> [] \<and> \<not> all_deps_complete ts task"
    by (simp add: blocked_consistent_def)
  have "dep_complete ts d" if "dep_complete (AList.delete k ts) d" for d
    using that by (cases "d = k") (auto simp: dep_complete_def delete_conv')
  then have "\<not> all_deps_complete (AList.delete k ts) task"
    using old all_deps_complete_mono [of "AList.delete k ts" ts task] by blast
  with old show "dependencies task \<noteq> [] \<and> \<not> all_deps_complete (AList.delete k ts) task"
    by simp
qed

lemma blocked_consistent_add:
  assumes "blocked_consistent (tasks s)"
  shows "blocked_consistent (tasks (snd (add new_id now_iso args s)))"
  unfolding tasks_add
proof (rule blocked_consistent_update [OF assms])
  let ?n = "new_task (tasks s) new_id now_iso args"
  let ?t = "if dependencies ?n \<noteq> [] \<and> \<not> all_deps_complete (tasks s) ?n
            then ?n\<lparr>status := BLOCKED\<rparr> else ?n"
  have p: "status ?n = PENDING"
    by (simp add: new_task_def)
  show "status ?t \<noteq> COMPLETED"
    by (simp add: p)
  assume "status ?t = BLOCKED"
  then have c: "dependencies ?n \<noteq> [] \<and> \<not> all_deps_complete (tasks s) ?n"
    by (simp add: p split: if_splits)
  then have "?t = ?n\<lparr>status := BLOCKED\<rparr>"
    by simp
  moreover have "all_deps_complete (tasks s) (?n\<lparr>status := BLOCKED\<rparr>)
      = all_deps_complete (tasks s) ?n"
    by (rule all_deps_complete_same_deps) simp
  ultimately show "dependencies ?t \<noteq> [] \<and> \<not> all_deps_complete (tasks s) ?t"
    using c by simp
qed

lemma blocked_consistent_update_op:
  assumes "blocked_consistent (tasks s)"
  shows "blocked_consistent (tasks (snd (update now_iso task_id args s)))"
proof (cases "map_of (tasks s) task_id")
  case None
  with assms show ?thesis by (simp add: update_def)
next
  case (Some task)
  have u: "blocked_consistent (AList.update task_id t' (tasks s))"
    if "status t' = status task" and "dependencies t' = dependencies task" for t'
    using that by (rule blocked_consistent_update_fields [OF assms Some])
  show ?thesis
    by (simp add: update_def Let_def Some tasks_log_action u)
qed

lemma blocked_consistent_delete_op:
  assumes "blocked_consistent (tasks s)"
  shows "blocked_consistent (tasks (snd (delete now_iso task_id s)))"
proof (cases "map_of (tasks s) task_id")
  case None
  with assms show ?thesis by (simp add: delete_def)
next
  case (Some task)
  show ?thesis
    by (simp add: delete_def Let_def Some tasks_log_action blocked_consistent_delete [OF assms])
qed

lemma blocked_consistent_start:
  assumes "blocked_consistent (tasks s)"
  shows "blocked_consistent (tasks (snd (start now_iso task_id agent s)))"
proof (cases "map_of (tasks s) task_id")
  case None
  with assms show ?thesis by (simp add: start_def)
next
  case (Some task)
  have u: "blocked_consistent (AList.update task_id t' (tasks s))"
    if "status t' = IN_PROGRESS" for t'
    by (rule blocked_consistent_update [OF assms]) (simp_all add: that)
  show ?thesis
    using assms
    by (cases agent) (simp_all add: start_def Let_def Some tasks_log_action u)
qed

lemma blocked_consistent_fail:
  assumes "blocked_consistent (tasks s)"
  shows "blocked_consistent (tasks (snd (fail now_iso task_id reason s)))"
proof (cases "map_of (tasks s) task_id")
  case None
  with assms show ?thesis by (simp add: fail_def)
next
  case (Some task)
  have u: "blocked_consistent (AList.update task_id t' (tasks s))"
    if "status t' = FAILED" for t'
    by (rule blocked_consistent_update [OF assms]) (simp_all add: that)
  show ?thesis
    by (simp add: fail_def Let_def Some tasks_log_action u split: option.split)
qed

lemma blocked_consistent_cancel:
  assumes "blocked_consistent (tasks s)"
  shows "blocked_consistent (tasks (snd (cancel now_iso task_id reason s)))"
proof (cases "map_of (tasks s) task_id")
  case None
  with assms show ?thesis by (simp add: cancel_def)
next
  case (Some task)
  have u: "blocked_consistent (AList.update task_id t' (tasks s))"
    if "status t' = CANCELLED" for t'
    by (rule blocked_consistent_update [OF assms]) (simp_all add: that)
  show ?thesis
    by (simp add: cancel_def Let_def Some tasks_log_action u split: option.split)
qed

lemma blocked_consistent_complete:
  assumes "blocked_consistent (tasks s)"
  shows "blocked_consistent (tasks (snd (complete parse now_iso task_id notes_arg s)))"
proof (cases "map_of (tasks s) task_id")
  case None
  with assms show ?thesis by (simp add: complete_def)
next
  case (Some task)
  show ?thesis
    by (simp add: complete_def Let_def Some tasks_log_action
        blocked_consistent_update_blocked_status)
qed

text \<open>
  The store after \<open>add_dependency\<close> and after \<open>remove_dependency\<close>: unchanged, or the
  status pass over the store in which the list object of the target has its new content.
\<close>

lemma tasks_add_dependency:
  "tasks (apply_operation parse now_iso (AddDependency depth task_id depends_on) s) = tasks s
   \<or> (\<exists>t. map_of (tasks s) task_id = Some t
        \<and> tasks (apply_operation parse now_iso (AddDependency depth task_id depends_on) s)
            = update_blocked_status
                (if depends_on \<notin> set (dependencies t)
                 then set_list (dependencies_obj t) (dependencies t @ [depends_on]) (tasks s)
                 else tasks s))"
proof (cases "map_of (tasks s) task_id")
  case None
  then show ?thesis
    by (simp add: add_dependency_def)
next
  case (Some t)
  show ?thesis
  proof (cases "add_dependency depth now_iso task_id depends_on s")
    case (Inl e)
    then show ?thesis by simp
  next
    case (Inr r)
    show ?thesis
    proof (cases "fst r")
      case False
      with Inr Some have "snd r = s"
        by (auto simp: add_dependency_def Let_def split: if_splits sum.splits)
      with Inr show ?thesis
        by (cases r) simp
    next
      case True
      with Inr Some have "tasks (snd r) = update_blocked_status
                (if depends_on \<notin> set (dependencies t)
                 then set_list (dependencies_obj t) (dependencies t @ [depends_on]) (tasks s)
                 else tasks s)"
        by (auto simp: add_dependency_def Let_def tasks_log_action split: if_splits sum.splits)
      with Inr Some show ?thesis
        by (cases r) simp
    qed
  qed
qed

lemma tasks_remove_dependency:
  "tasks (apply_operation parse now_iso (RemoveDependency task_id depends_on) s) = tasks s
   \<or> (\<exists>t. map_of (tasks s) task_id = Some t
        \<and> tasks (apply_operation parse now_iso (RemoveDependency task_id depends_on) s)
            = update_blocked_status
                (if depends_on \<in> set (dependencies t)
                 then set_list (dependencies_obj t) (remove1 depends_on (dependencies t))
                        (tasks s)
                 else tasks s))"
proof (cases "map_of (tasks s) task_id")
  case None
  then show ?thesis
    by (simp add: remove_dependency_def)
next
  case (Some t)
  then show ?thesis
    by (simp add: remove_dependency_def Let_def)
qed

lemma blocked_consistent_apply_operation:
  assumes "blocked_consistent (tasks s)"
  shows "blocked_consistent (tasks (apply_operation parse now_iso oper s))"
proof (cases oper)
  case (Add new_id args)
  then show ?thesis by (simp add: blocked_consistent_add [OF assms])
next
  case (Update task_id args)
  then show ?thesis by (simp add: blocked_consistent_update_op [OF assms])
next
  case (Delete task_id)
  then show ?thesis by (simp add: blocked_consistent_delete_op [OF assms])
next
  case (Start task_id agent)
  then show ?thesis by (simp add: blocked_consistent_start [OF assms])
next
  case (Complete task_id notes_arg)
  then show ?thesis by (simp add: blocked_consistent_complete [OF assms])
next
  case (Fail task_id reason)
  then show ?thesis by (simp add: blocked_consistent_fail [OF assms])
next
  case (Cancel task_id reason)
  then show ?thesis by (simp add: blocked_consistent_cancel [OF assms])
next
  case (AddDependency depth task_id depends_on)
  from tasks_add_dependency [of parse now_iso depth task_id depends_on s] assms
  show ?thesis
    unfolding AddDependency by (auto simp: blocked_consistent_update_blocked_status)
next
  case (RemoveDependency task_id depends_on)
  from tasks_remove_dependency [of parse now_iso task_id depends_on s] assms
  show ?thesis
    unfolding RemoveDependency by (auto simp: blocked_consistent_update_blocked_status)
qed

lemma reachable_blocked_consistent:
  "reachable parse s \<Longrightarrow> blocked_consistent (tasks s)"
proof (induction rule: reachable.induct)
  case (fresh now_iso)
  show ?case by (simp add: tasks_new_queue blocked_consistent_def)
next
  case (mutate s now_iso oper)
  from mutate.IH show ?case by (rule blocked_consistent_apply_operation)
next
  case (recompute s)
  show ?case by (simp add: blocked_consistent_update_blocked_status)
qed

subsection \<open>Shared dependency lists\<close>

lemma map_of_set_list:
  "map_of (set_list obj xs ts) k =
     map_option (\<lambda>t. if dependencies_obj t = obj then t\<lparr>dependencies := xs\<rparr> else t)
       (map_of ts k)"
  by (simp add: set_list_def map_of_map)

lemma dep_complete_set_list: "dep_complete (set_list obj xs ts) d = dep_complete ts d"
  by (cases "map_of ts d") (simp_all add: dep_complete_def map_of_set_list)

lemma fresh_list_greater:
  assumes "map_of ts k = Some t"
  shows "dependencies_obj t < fresh_list ts"
proof -
  have "x \<le> foldr max xs (0::nat)" if "x \<in> set xs" for x xs
    using that by (induction xs) auto
  moreover from assms have "(k, t) \<in> set ts"
    by (rule map_of_SomeD)
  then have "dependencies_obj t \<in> set (map (\<lambda>(k, t). dependencies_obj t) ts)"
    by force
  ultimately show ?thesis
    by (simp add: fresh_list_def less_Suc_eq_le)
qed

lemma alias_consistent_update:
  assumes "alias_consistent ts"
    and "\<And>k0 t0. map_of ts k0 = Some t0 \<Longrightarrow> dependencies_obj t0 = dependencies_obj t'
           \<Longrightarrow> dependencies t0 = dependencies t'"
  shows "alias_consistent (AList.update k t' ts)"
  unfolding alias_consistent_def
proof (intro allI impI)
  fix k1 k2 t1 t2
  assume m1: "map_of (AList.update k t' ts) k1 = Some t1"
    and m2: "map_of (AList.update k t' ts) k2 = Some t2"
    and o: "dependencies_obj t1 = dependencies_obj t2"
  have c1: "t1 = t' \<or> map_of ts k1 = Some t1"
    using m1 by (cases "k1 = k") (simp_all add: map_of_update_same map_of_update_other)
  have c2: "t2 = t' \<or> map_of ts k2 = Some t2"
    using m2 by (cases "k2 = k") (simp_all add: map_of_update_same map_of_update_other)
  from c1 c2 o assms show "dependencies t1 = dependencies t2"
    unfolding alias_consistent_def by metis
qed

lemma alias_consistent_update_fields:
  assumes "alias_consistent ts" and "map_of ts k = Some t"
    and "dependencies t' = dependencies t" and "dependencies_obj t' = dependencies_obj t"
  shows "alias_consistent (AList.update k t' ts)"
proof (rule alias_consistent_update [OF assms(1)])
  fix k0 t0
  assume "map_of ts k0 = Some t0" and "dependencies_obj t0 = dependencies_obj t'"
  with assms show "dependencies t0 = dependencies t'"
    unfolding alias_consistent_def by metis
qed

lemma alias_consistent_delete:
  assumes "alias_consistent ts"
  shows "alias_consistent (AList.delete k ts)"
proof -
  have "map_of ts k' = Some t" if "map_of (AList.delete k ts) k' = Some t" for k' t
    using that by (cases "k' = k") (simp_all add: delete_conv')
  with assms show ?thesis
    unfolding alias_consistent_def by blast
qed

lemma alias_consistent_set_list:
  assumes "alias_consistent ts"
  shows "alias_consistent (set_list obj xs ts)"
  unfolding alias_consistent_def
proof (intro allI impI)
  fix k1 k2 t1 t2
  assume m1: "map_of (set_list obj xs ts) k1 = Some t1"
    and m2: "map_of (set_list obj xs ts) k2 = Some t2"
    and o: "dependencies_obj t1 = dependencies_obj t2"
  from m1 obtain u1 where u1: "map_of ts k1 = Some u1"
    and t1: "t1 = (if dependencies_obj u1 = obj then u1\<lparr>dependencies := xs\<rparr> else u1)"
    by (auto simp: map_of_set_list)
  from m2 obtain u2 where u2: "map_of ts k2 = Some u2"
    and t2: "t2 = (if dependencies_obj u2 = obj then u2\<lparr>dependencies := xs\<rparr> else u2)"
    by (auto simp: map_of_set_list)
  from o t1 t2 have o': "dependencies_obj u1 = dependencies_obj u2"
    by (simp split: if_splits)
  with assms u1 u2 have "dependencies u1 = dependencies u2"
    unfolding alias_consistent_def by blast
  with o' t1 t2 show "dependencies t1 = dependencies t2"
    by simp
qed

lemma update_blocked_task_dependencies_obj:
  "dependencies_obj (update_blocked_task ts task) = dependencies_obj task"
  by (simp add: update_blocked_task_def)

lemma alias_consistent_update_blocked_status:
  assumes "alias_consistent ts"
  shows "alias_consistent (update_blocked_status ts)"
  unfolding alias_consistent_def
proof (intro allI impI)
  fix k1 k2 t1 t2
  assume m1: "map_of (update_blocked_status ts) k1 = Some t1"
    and m2: "map_of (update_blocked_status ts) k2 = Some t2"
    and o: "dependencies_obj t1 = dependencies_obj t2"
  from m1 obtain u1 where u1: "map_of ts k1 = Some u1" and t1: "t1 = update_blocked_task ts u1"
    by (auto simp: map_of_update_blocked_status)
  from m2 obtain u2 where u2: "map_of ts k2 = Some u2" and t2: "t2 = update_blocked_task ts u2"
    by (auto simp: map_of_update_blocked_status)
  from o have "dependencies_obj u1 = dependencies_obj u2"
    by (simp add: t1 t2 update_blocked_task_dependencies_obj)
  with assms u1 u2 have "dependencies u1 = dependencies u2"
    unfolding alias_consistent_def by blast
  then show "dependencies t1 = dependencies t2"
    by (simp add: t1 t2 update_blocked_task_dependencies)
qed

lemma alias_consistent_add:
  assumes "alias_consistent (tasks s)"
  shows "alias_consistent (tasks (snd (add new_id now_iso args s)))"
  unfolding tasks_add
proof (rule alias_consistent_update [OF assms])
  let ?n = "new_task (tasks s) new_id now_iso args"
  let ?t = "if dependencies ?n \<noteq> [] \<and> \<not> all_deps_complete (tasks s) ?n
            then ?n\<lparr>status := BLOCKED\<rparr> else ?n"
  fix k0 t0
  assume m: "map_of (tasks s) k0 = Some t0" and o: "dependencies_obj t0 = dependencies_obj ?t"
  have f: "dependencies_obj t0 \<noteq> fresh_list (tasks s)"
    using fresh_list_greater [OF m] by simp
  have "dependencies_obj ?t = dependencies_obj ?n" and d: "dependencies ?t = dependencies ?n"
    by simp_all
  with o have o': "dependencies_obj t0 = dependencies_obj ?n"
    by simp
  have "dependencies t0 = dependencies ?n"
  proof (cases "a_dependencies args")
    case None
    with o' f show ?thesis
      by (simp add: new_task_def given_list_def or_new_list_def)
  next
    case (Some arg)
    show ?thesis
    proof (cases arg)
      case (Fresh xs)
      with Some o' f show ?thesis
        by (simp add: new_task_def given_list_def or_new_list_def split: if_splits)
    next
      case (ListOf k1)
      show ?thesis
      proof (cases "map_of (tasks s) k1")
        case None
        with Some ListOf o' f show ?thesis
          by (simp add: new_task_def given_list_def or_new_list_def)
      next
        case t1: (Some t1)
        show ?thesis
        proof (cases "dependencies t1 = []")
          case True
          with Some ListOf t1 o' f show ?thesis
            by (simp add: new_task_def given_list_def or_new_list_def)
        next
          case False
          with Some ListOf t1 have n: "dependencies_obj ?n = dependencies_obj t1"
            "dependencies ?n = dependencies t1"
            by (simp_all add: new_task_def given_list_def or_new_list_def)
          from assms m t1 o' n(1) have "dependencies t0 = dependencies t1"
            unfolding alias_consistent_def by metis
          with n(2) show ?thesis by simp
        qed
      qed
    qed
  qed
  with d show "dependencies t0 = dependencies ?t"
    by simp
qed

lemma alias_consistent_apply_operation:
  assumes "alias_consistent (tasks s)"
  shows "alias_consistent (tasks (apply_operation parse now_iso oper s))"
proof (cases oper)
  case (Add new_id args)
  then show ?thesis by (simp add: alias_consistent_add [OF assms])
next
  case (Update task_id args)
  show ?thesis
  proof (cases "map_of (tasks s) task_id")
    case None
    with assms Update show ?thesis by (simp add: update_def)
  next
    case (Some task)
    have u: "alias_consistent (AList.update task_id t' (tasks s))"
      if "dependencies t' = dependencies task" and "dependencies_obj t' = dependencies_obj task"
      for t'
      using that by (rule alias_consistent_update_fields [OF assms Some])
    show ?thesis
      by (simp add: Update update_def Let_def Some tasks_log_action u)
  qed
next
  case (Delete task_id)
  show ?thesis
    by (cases "map_of (tasks s) task_id")
       (simp_all add: Delete delete_def Let_def tasks_log_action assms
          alias_consistent_delete [OF assms])
next
  case (Start task_id agent)
  show ?thesis
  proof (cases "map_of (tasks s) task_id")
    case None
    with assms Start show ?thesis by (simp add: start_def)
  next
    case (Some task)
    have u: "alias_consistent (AList.update task_id t' (tasks s))"
      if "dependencies t' = dependencies task" and "dependencies_obj t' = dependencies_obj task"
      for t'
      using that by (rule alias_consistent_update_fields [OF assms Some])
    show ?thesis
      using assms
      by (cases agent) (simp_all add: Start start_def Let_def Some tasks_log_action u)
  qed
next
  case (Complete task_id notes_arg)
  show ?thesis
  proof (cases "map_of (tasks s) task_id")
    case None
    with assms Complete show ?thesis by (simp add: complete_def)
  next
    case (Some task)
    have "dependencies (completed_task parse now_iso notes_arg task) = dependencies task"
      and "dependencies_obj (completed_task parse now_iso notes_arg task) = dependencies_obj task"
      by (simp_all add: completed_task_def Let_def split: option.split)
    then have "alias_consistent
        (AList.update task_id (completed_task parse now_iso notes_arg task) (tasks s))"
      by (rule alias_consistent_update_fields [OF assms Some])
    then show ?thesis
      by (simp add: Complete complete_def Let_def Some tasks_log_action
          alias_consistent_update_blocked_status split: option.split)
  qed
next
  case (Fail task_id reason)
  show ?thesis
  proof (cases "map_of (tasks s) task_id")
    case None
    with assms Fail show ?thesis by (simp add: fail_def)
  next
    case (Some task)
    have u: "alias_consistent (AList.update task_id t' (tasks s))"
      if "dependencies t' = dependencies task" and "dependencies_obj t' = dependencies_obj task"
      for t'
      using that by (rule alias_consistent_update_fields [OF assms Some])
    show ?thesis
      by (simp add: Fail fail_def Let_def Some tasks_log_action u split: option.split)
  qed
next
  case (Cancel task_id reason)
  show ?thesis
  proof (cases "map_of (tasks s) task_id")
    case None
    with assms Cancel show ?thesis by (simp add: cancel_def)
  next
    case (Some task)
    have u: "alias_consistent (AList.update task_id t' (tasks s))"
      if "dependencies t' = dependencies task" and "dependencies_obj t' = dependencies_obj task"
      for t'
      using that by (rule alias_consistent_update_fields [OF assms Some])
    show ?thesis
      by (simp add: Cancel cancel_def Let_def Some tasks_log_action u split: option.split)
  qed
next
  case (AddDependency depth task_id depends_on)
  from tasks_add_dependency [of parse now_iso depth task_id depends_on s] assms
  show ?thesis
    unfolding AddDependency
    by (auto simp: alias_consistent_update_blocked_status alias_consistent_set_list)
next
  case (RemoveDependency task_id depends_on)
  from tasks_remove_dependency [of parse now_iso task_id depends_on s] assms
  show ?thesis
    unfolding RemoveDependency
    by (auto simp: alias_consistent_update_blocked_status alias_consistent_set_list)
qed

lemma reachable_alias_consistent:
  "reachable parse s \<Longrightarrow> alias_consistent (tasks s)"
proof (induction rule: reachable.induct)
  case (fresh now_iso)
  show ?case by (simp add: tasks_new_queue alias_consistent_def)
next
  case (mutate s now_iso oper)
  from mutate.IH show ?case by (rule alias_consistent_apply_operation)
next
  case (recompute s)
  then show ?case by (simp add: alias_consistent_update_blocked_status)
qed

subsection \<open>Operations other than complete\<close>

lemma blocked_task_stays:
  assumes "blocked_consistent ts" and "map_of ts other = Some task" and "status task = BLOCKED"
    and "\<And>d. dep_complete ts' d = dep_complete ts d"
  shows "update_blocked_task ts' task = task"
proof -
  from assms(1-3) have "dependencies task \<noteq> []" and "\<not> all_deps_complete ts task"
    by (simp_all add: blocked_consistent_def)
  moreover have "all_deps_complete ts' task = all_deps_complete ts task"
    by (rule all_deps_complete_cong) (rule assms(4))
  ultimately show ?thesis
    using assms(3) by (simp add: update_blocked_task_def)
qed

text \<open>
  The status pass after a change in place of the list object \<open>obj\<close>: a BLOCKED task that
  does not hold the object is left as it is; one that holds it stays BLOCKED when the new
  content contains the old one.
\<close>

lemma set_list_keeps_blocked:
  assumes "blocked_consistent ts" and "map_of ts other = Some task" and "status task = BLOCKED"
    and "dependencies_obj task = obj \<longrightarrow> set (dependencies task) \<subseteq> set xs"
  shows "map_option status (map_of (update_blocked_status (set_list obj xs ts)) other)
           = Some BLOCKED"
proof -
  let ?ts = "set_list obj xs ts"
  let ?t = "if dependencies_obj task = obj then task\<lparr>dependencies := xs\<rparr> else task"
  from assms(1-3) obtain d where d: "d \<in> set (dependencies task)" and nd: "\<not> dep_complete ts d"
    by (auto simp: blocked_consistent_def all_deps_complete_def list_all_iff)
  from d assms(4) have "d \<in> set (dependencies ?t)"
    by auto
  with nd have "dependencies ?t \<noteq> [] \<and> \<not> all_deps_complete ?ts ?t"
    by (auto simp: all_deps_complete_def list_all_iff dep_complete_set_list)
  moreover have "status ?t = BLOCKED"
    using assms(3) by simp
  ultimately have "status (update_blocked_task ?ts ?t) = BLOCKED"
    by (simp add: update_blocked_task_def)
  then show ?thesis
    using assms(2) by (simp add: map_of_update_blocked_status map_of_set_list)
qed

lemma pass_keeps_blocked:
  assumes "blocked_consistent ts" and "map_of ts other = Some task" and "status task = BLOCKED"
  shows "map_option status (map_of (update_blocked_status ts) other) = Some BLOCKED"
proof -
  have "update_blocked_task ts task = task"
    by (rule blocked_task_stays [OF assms]) simp
  then show ?thesis
    using assms(2,3) by (simp add: map_of_update_blocked_status)
qed

lemma other_task_stays_blocked:
  assumes "blocked_consistent (tasks s)" and "alias_consistent (tasks s)"
    and "\<not> is_complete oper" and "other \<noteq> operation_target oper"
    and "map_of (tasks s) other = Some task" and "status task = BLOCKED"
    and "\<not> removes_from_list_of oper (tasks s) task"
  shows "map_option status (map_of (tasks (apply_operation parse now_iso oper s)) other)
           = Some BLOCKED"
proof (cases oper)
  case (Add new_id args)
  with assms(4,5,6) show ?thesis
    by (simp add: tasks_add map_of_update_other)
next
  case (Update task_id args)
  with assms(4,5,6) show ?thesis
    by (cases "map_of (tasks s) task_id")
       (simp_all add: update_def Let_def tasks_log_action map_of_update_other)
next
  case (Delete task_id)
  with assms(4,5,6) show ?thesis
    by (cases "map_of (tasks s) task_id")
       (simp_all add: delete_def Let_def tasks_log_action)
next
  case (Start task_id agent)
  with assms(4,5,6) show ?thesis
    by (cases "map_of (tasks s) task_id"; cases agent)
       (simp_all add: start_def Let_def tasks_log_action map_of_update_other)
next
  case (Complete task_id notes_arg)
  with assms(3) show ?thesis by simp
next
  case (Fail task_id reason)
  with assms(4,5,6) show ?thesis
    by (cases "map_of (tasks s) task_id")
       (simp_all add: fail_def Let_def tasks_log_action map_of_update_other split: option.split)
next
  case (Cancel task_id reason)
  with assms(4,5,6) show ?thesis
    by (cases "map_of (tasks s) task_id")
       (simp_all add: cancel_def Let_def tasks_log_action map_of_update_other split: option.split)
next
  case (AddDependency depth task_id depends_on)
  from tasks_add_dependency [of parse now_iso depth task_id depends_on s]
  show ?thesis
  proof
    assume "tasks (apply_operation parse now_iso (AddDependency depth task_id depends_on) s)
              = tasks s"
    with assms(5,6) AddDependency show ?thesis by simp
  next
    assume "\<exists>t. map_of (tasks s) task_id = Some t
        \<and> tasks (apply_operation parse now_iso (AddDependency depth task_id depends_on) s)
            = update_blocked_status
                (if depends_on \<notin> set (dependencies t)
                 then set_list (dependencies_obj t) (dependencies t @ [depends_on]) (tasks s)
                 else tasks s)"
    then obtain t where t: "map_of (tasks s) task_id = Some t"
      and r: "tasks (apply_operation parse now_iso (AddDependency depth task_id depends_on) s)
            = update_blocked_status
                (if depends_on \<notin> set (dependencies t)
                 then set_list (dependencies_obj t) (dependencies t @ [depends_on]) (tasks s)
                 else tasks s)"
      by blast
    have same: "dependencies task = dependencies t" if "dependencies_obj task = dependencies_obj t"
      using assms(2,5) t that unfolding alias_consistent_def by metis
    have "map_option status (map_of (update_blocked_status
            (set_list (dependencies_obj t) (dependencies t @ [depends_on]) (tasks s))) other)
          = Some BLOCKED"
      using assms(1,5,6) by (rule set_list_keeps_blocked) (auto simp: same)
    moreover have "map_option status (map_of (update_blocked_status (tasks s)) other)
          = Some BLOCKED"
      using assms(1,5,6) by (rule pass_keeps_blocked)
    ultimately show ?thesis
      unfolding AddDependency r by simp
  qed
next
  case (RemoveDependency task_id depends_on)
  from tasks_remove_dependency [of parse now_iso task_id depends_on s]
  show ?thesis
  proof
    assume "tasks (apply_operation parse now_iso (RemoveDependency task_id depends_on) s)
              = tasks s"
    with assms(5,6) RemoveDependency show ?thesis by simp
  next
    assume "\<exists>t. map_of (tasks s) task_id = Some t
        \<and> tasks (apply_operation parse now_iso (RemoveDependency task_id depends_on) s)
            = update_blocked_status
                (if depends_on \<in> set (dependencies t)
                 then set_list (dependencies_obj t) (remove1 depends_on (dependencies t))
                        (tasks s)
                 else tasks s)"
    then obtain t where t: "map_of (tasks s) task_id = Some t"
      and r: "tasks (apply_operation parse now_iso (RemoveDependency task_id depends_on) s)
            = update_blocked_status
                (if depends_on \<in> set (dependencies t)
                 then set_list (dependencies_obj t) (remove1 depends_on (dependencies t))
                        (tasks s)
                 else tasks s)"
      by blast
    from assms(7) t RemoveDependency have ne: "dependencies_obj task \<noteq> dependencies_obj t"
      by auto
    have "map_option status (map_of (update_blocked_status
            (set_list (dependencies_obj t) (remove1 depends_on (dependencies t)) (tasks s)))
            other) = Some BLOCKED"
      using assms(1,5,6) by (rule set_list_keeps_blocked) (simp add: ne)
    moreover have "map_option status (map_of (update_blocked_status (tasks s)) other)
          = Some BLOCKED"
      using assms(1,5,6) by (rule pass_keeps_blocked)
    ultimately show ?thesis
      unfolding RemoveDependency r by simp
  qed
qed

text \<open>
  The example run. \<open>main0002\<close> and \<open>alia0003\<close> hold the same list object, \<open>copy0004\<close> a
  list of its own with the same content; all three are BLOCKED by \<open>dep00001\<close>.
\<close>

lemma reachable_example_run: "reachable parse example_run"
proof -
  have "reachable parse (new_queue ''2026-01-01T00:00:00'')"
    by (rule reachable.fresh)
  then have "reachable parse (apply_operation parse ''2026-01-01T00:00:00''
      (Add ''dep00001'' example_dep_args) (new_queue ''2026-01-01T00:00:00''))"
    by (rule reachable.mutate)
  then have "reachable parse (apply_operation parse ''2026-01-01T00:00:00''
      (Add ''main0002'' example_main_args)
      (apply_operation parse ''2026-01-01T00:00:00''
        (Add ''dep00001'' example_dep_args) (new_queue ''2026-01-01T00:00:00'')))"
    by (rule reachable.mutate)
  then have "reachable parse (apply_operation parse ''2026-01-01T00:00:00''
      (Add ''alia0003'' example_alias_args)
      (apply_operation parse ''2026-01-01T00:00:00''
        (Add ''main0002'' example_main_args)
        (apply_operation parse ''2026-01-01T00:00:00''
          (Add ''dep00001'' example_dep_args) (new_queue ''2026-01-01T00:00:00''))))"
    by (rule reachable.mutate)
  then have "reachable parse (apply_operation parse ''2026-01-01T00:00:00''
      (Add ''copy0004'' example_copy_args)
      (apply_operation parse ''2026-01-01T00:00:00''
        (Add ''alia0003'' example_alias_args)
        (apply_operation parse ''2026-01-01T00:00:00''
          (Add ''main0002'' example_main_args)
          (apply_operation parse ''2026-01-01T00:00:00''
            (Add ''dep00001'' example_dep_args) (new_queue ''2026-01-01T00:00:00'')))))"
    by (rule reachable.mutate)
  then show ?thesis
    by (simp add: example_run_def)
qed

lemma tasks_example_run:
  "tasks example_run =
     [(''dep00001'', example_added ''dep00001'' ''Dep'' PENDING [] 1),
      (''main0002'', example_added ''main0002'' ''Main'' BLOCKED [''dep00001''] 2),
      (''alia0003'', example_added ''alia0003'' ''Alias'' BLOCKED [''dep00001''] 2),
      (''copy0004'', example_added ''copy0004'' ''Copy'' BLOCKED [''dep00001''] 3)]"
  by (simp add: example_run_def tasks_add tasks_new_queue example_dep_args_def
      example_main_args_def example_alias_args_def example_copy_args_def or_empty_def
      all_deps_complete_def dep_complete_def new_task_def given_list_def or_new_list_def
      fresh_list_def example_added_def)

lemma status_completed_task: "status (completed_task parse now_iso notes_arg task) = COMPLETED"
  by (simp add: completed_task_def Let_def split: option.split)

lemma tasks_complete:
  assumes "map_of (tasks s) task_id = Some task"
  shows "tasks (snd (complete parse now_iso task_id notes_arg s)) =
     update_blocked_status
       (AList.update task_id (completed_task parse now_iso notes_arg task) (tasks s))"
  using assms by (simp add: complete_def Let_def tasks_log_action split: option.split)

lemma complete_unblocks_example:
  "map_of (tasks (apply_operation parse ''2026-01-02T00:00:00'' (Complete ''dep00001'' [])
       example_run)) ''main0002''
     = Some ((example_added ''main0002'' ''Main'' BLOCKED [''dep00001''] 2)
               \<lparr>status := PENDING\<rparr>)"
proof -
  let ?dep = "example_added ''dep00001'' ''Dep'' PENDING [] 1"
  let ?main = "example_added ''main0002'' ''Main'' BLOCKED [''dep00001''] 2"
  let ?ts = "AList.update ''dep00001'' (completed_task parse ''2026-01-02T00:00:00'' [] ?dep)
               (tasks example_run)"
  have d: "map_of (tasks example_run) ''dep00001'' = Some ?dep"
    by (simp add: tasks_example_run)
  have m: "map_of ?ts ''main0002'' = Some ?main"
    by (simp add: tasks_example_run)
  have c: "dep_complete ?ts ''dep00001''"
    by (simp add: dep_complete_def map_of_update_same status_completed_task)
  have deps: "dependencies ?main = [''dep00001'']" and st: "status ?main = BLOCKED"
    by (simp_all add: example_added_def)
  have "update_blocked_task ?ts ?main = ?main\<lparr>status := PENDING\<rparr>"
    using c by (simp add: update_blocked_task_def all_deps_complete_def deps st)
  then have "map_of (update_blocked_status ?ts) ''main0002'' = Some (?main\<lparr>status := PENDING\<rparr>)"
    by (simp only: map_of_update_blocked_status m option.map)
  then show ?thesis
    by (simp add: tasks_complete [OF d])
qed

lemma tasks_remove_example:
  "tasks (apply_operation parse ''2026-01-02T00:00:00''
       (RemoveDependency ''main0002'' ''dep00001'') example_run) =
     [(''dep00001'', example_added ''dep00001'' ''Dep'' PENDING [] 1),
      (''main0002'', example_added ''main0002'' ''Main'' PENDING [] 2),
      (''alia0003'', example_added ''alia0003'' ''Alias'' PENDING [] 2),
      (''copy0004'', example_added ''copy0004'' ''Copy'' BLOCKED [''dep00001''] 3)]"
  by (simp add: remove_dependency_def Let_def tasks_example_run set_list_def
      update_blocked_status_def update_blocked_step_def update_blocked_task_def
      all_deps_complete_def dep_complete_def example_added_def)

text \<open>
  Claim C3. Among the mutating operations of the store (add, update, delete, start,
  complete, fail, cancel, add_dependency, remove_dependency), \<open>complete\<close> is the only one
  that can take a task other than its argument from BLOCKED to PENDING, but for
  \<open>remove_dependency\<close> on a shared list: in every reachable store, each of the other
  eight leaves every task other than its target BLOCKED that was BLOCKED, unless the
  operation is a \<open>remove_dependency\<close> whose target holds the same dependency list object
  as that task; and there is a reachable store in which \<open>complete\<close> turns a BLOCKED task
  other than its argument PENDING.
\<close>

theorem only_complete_unblocks_others:
  "(\<forall>s oper now_iso other task.
      reachable parse s \<and> \<not> is_complete oper \<and> other \<noteq> operation_target oper
      \<and> map_of (tasks s) other = Some task \<and> status task = BLOCKED
      \<and> \<not> removes_from_list_of oper (tasks s) task
      \<longrightarrow> map_option status (map_of (tasks (apply_operation parse now_iso oper s)) other)
            = Some BLOCKED)
   \<and> (\<exists>s now_iso task_id other task.
      reachable parse s \<and> other \<noteq> task_id
      \<and> map_of (tasks s) other = Some task \<and> status task = BLOCKED
      \<and> map_of (tasks (apply_operation parse now_iso (Complete task_id []) s)) other
          = Some (task\<lparr>status := PENDING\<rparr>))"
proof (rule conjI)
  show "\<forall>s oper now_iso other task.
      reachable parse s \<and> \<not> is_complete oper \<and> other \<noteq> operation_target oper
      \<and> map_of (tasks s) other = Some task \<and> status task = BLOCKED
      \<and> \<not> removes_from_list_of oper (tasks s) task
      \<longrightarrow> map_option status (map_of (tasks (apply_operation parse now_iso oper s)) other)
            = Some BLOCKED"
  proof (intro allI impI)
    fix s oper now_iso other task
    assume a: "reachable parse s \<and> \<not> is_complete oper \<and> other \<noteq> operation_target oper
        \<and> map_of (tasks s) other = Some task \<and> status task = BLOCKED
        \<and> \<not> removes_from_list_of oper (tasks s) task"
    from a have r: "reachable parse s" and n: "\<not> is_complete oper"
      and o: "other \<noteq> operation_target oper" and m: "map_of (tasks s) other = Some task"
      and b: "status task = BLOCKED" and l: "\<not> removes_from_list_of oper (tasks s) task"
      by simp_all
    from r have "blocked_consistent (tasks s)"
      by (rule reachable_blocked_consistent)
    moreover from r have "alias_consistent (tasks s)"
      by (rule reachable_alias_consistent)
    ultimately show "map_option status
        (map_of (tasks (apply_operation parse now_iso oper s)) other) = Some BLOCKED"
      using n o m b l by (rule other_task_stays_blocked)
  qed
next
  let ?main = "example_added ''main0002'' ''Main'' BLOCKED [''dep00001''] 2"
  have "reachable parse example_run \<and> ''main0002'' \<noteq> ''dep00001''
      \<and> map_of (tasks example_run) ''main0002'' = Some ?main \<and> status ?main = BLOCKED
      \<and> map_of (tasks (apply_operation parse ''2026-01-02T00:00:00''
            (Complete ''dep00001'' []) example_run)) ''main0002''
          = Some (?main\<lparr>status := PENDING\<rparr>)"
    by (intro conjI reachable_example_run complete_unblocks_example)
       (simp_all add: tasks_example_run example_added_def)
  then show "\<exists>s now_iso task_id other task.
      reachable parse s \<and> other \<noteq> task_id
      \<and> map_of (tasks s) other = Some task \<and> status task = BLOCKED
      \<and> map_of (tasks (apply_operation parse now_iso (Complete task_id []) s)) other
          = Some (task\<lparr>status := PENDING\<rparr>)"
    by (intro exI)
qed

text \<open>
  The instance: in the example run, \<open>remove_dependency("main0002", "dep00001")\<close> removes
  the only dependency of \<open>main0002\<close>, runs the status pass over the whole store, and
  leaves \<open>copy0004\<close>, which holds a list of its own, BLOCKED.
\<close>

theorem only_complete_unblocks_others_witness:
  "map_option dependencies (map_of (tasks example_run) ''main0002'') = Some [''dep00001'']
   \<and> map_option dependencies
       (map_of (tasks (apply_operation example_parse ''2026-01-02T00:00:00''
          (RemoveDependency ''main0002'' ''dep00001'') example_run)) ''main0002'') = Some []
   \<and> map_option status
       (map_of (tasks (apply_operation example_parse ''2026-01-02T00:00:00''
          (RemoveDependency ''main0002'' ''dep00001'') example_run)) ''copy0004'')
     = Some BLOCKED"
proof -
  let ?copy = "example_added ''copy0004'' ''Copy'' BLOCKED [''dep00001''] 3"
  have h: "reachable example_parse example_run
      \<and> \<not> is_complete (RemoveDependency ''main0002'' ''dep00001'')
      \<and> ''copy0004'' \<noteq> operation_target (RemoveDependency ''main0002'' ''dep00001'')
      \<and> map_of (tasks example_run) ''copy0004'' = Some ?copy \<and> status ?copy = BLOCKED
      \<and> \<not> removes_from_list_of (RemoveDependency ''main0002'' ''dep00001'')
            (tasks example_run) ?copy"
    by (simp add: reachable_example_run tasks_example_run example_added_def)
  have "map_option status
       (map_of (tasks (apply_operation example_parse ''2026-01-02T00:00:00''
          (RemoveDependency ''main0002'' ''dep00001'') example_run)) ''copy0004'')
     = Some BLOCKED"
    by (rule only_complete_unblocks_others [of example_parse, THEN conjunct1, rule_format,
          OF h])
  moreover have "map_option dependencies (map_of (tasks example_run) ''main0002'')
      = Some [''dep00001'']"
    by (simp add: tasks_example_run example_added_def)
  moreover have "map_option dependencies
       (map_of (tasks (apply_operation example_parse ''2026-01-02T00:00:00''
          (RemoveDependency ''main0002'' ''dep00001'') example_run)) ''main0002'') = Some []"
    by (simp only: tasks_remove_example) (simp add: example_added_def)
  ultimately show ?thesis
    by blast
qed

text \<open>
  The claim as the specification words it fails when two tasks hold the same list object:
  in the example run \<open>alia0003\<close> was added with the list \<open>main0002\<close> was added with, and
  \<open>remove_dependency("main0002", "dep00001")\<close> takes \<open>alia0003\<close>, which is not its
  argument, from BLOCKED to PENDING.
\<close>

theorem remove_dependency_unblocks_alias:
  "reachable example_parse example_run
   \<and> ''alia0003'' \<noteq> operation_target (RemoveDependency ''main0002'' ''dep00001'')
   \<and> map_option status (map_of (tasks example_run) ''alia0003'') = Some BLOCKED
   \<and> map_option status
       (map_of (tasks (apply_operation example_parse ''2026-01-02T00:00:00''
          (RemoveDependency ''main0002'' ''dep00001'') example_run)) ''alia0003'')
     = Some PENDING"
proof -
  have "map_option status (map_of (tasks example_run) ''alia0003'') = Some BLOCKED"
    by (simp add: tasks_example_run example_added_def)
  moreover have "map_option status
       (map_of (tasks (apply_operation example_parse ''2026-01-02T00:00:00''
          (RemoveDependency ''main0002'' ''dep00001'') example_run)) ''alia0003'')
     = Some PENDING"
    by (simp only: tasks_remove_example) (simp add: example_added_def)
  ultimately show ?thesis
    using reachable_example_run [of example_parse] by simp
qed

end
